theory Spec2Isabelle
  imports Complex_Main "HOL-Library.Word" "HOL-Library.Multiset"
begin

section \<open>Data of s3rmdir.go\<close>

text \<open>
  Go's \<open>int\<close> and \<open>uint\<close> have the width of the platform (32 or 64 bits). They are
  modelled as \<open>'w word\<close> for an arbitrary width \<open>'w\<close>: \<open>+\<close> wraps, \<open>sint\<close> reads an
  \<open>int\<close>, \<open>unat\<close> reads a \<open>uint\<close>. Strings are byte strings, as in Go. A slice is the
  list of its elements and \<open>len\<close> is the length of the list. Every slice handed to a
  worker is a fresh one (line 128) or is not appended to afterwards (line 140), so no two
  of them alias.
\<close>

record objectVersion =
  Key :: string
  VersionId :: string

record (overloaded) ('w :: len) deleteBatchResult =
  BatchSize :: "'w word"
  ErrorCount :: "'w word"

subsection \<open>The storage collaborator (aws-sdk-go-v2, service/s3)\<close>

text \<open>
  Only the parts of the SDK's types that the program touches. An element of
  \<open>page.Versions\<close> or \<open>page.DeleteMarkers\<close> is the pair of its dereferenced
  \<open>Key\<close> and \<open>VersionId\<close>, which the listing always sets.
\<close>

record objectIdentifier =
  ObjectIdentifier_Key :: string
  ObjectIdentifier_VersionId :: string

record s3Delete =
  Objects :: "objectIdentifier list"
  Quiet :: bool

record deleteObjectsInput =
  Bucket :: string
  Delete :: s3Delete

record s3Error =
  Error_Code :: string
  Error_Key :: string
  Error_Message :: string
  Error_VersionId :: string

record deleteObjectsOutput =
  Errors :: "s3Error list"

record listObjectVersionsInput =
  List_Bucket :: string
  List_Prefix :: string

record page =
  Versions :: "(string \<times> string) list"
  DeleteMarkers :: "(string \<times> string) list"

text \<open>
  The client is shared read-only by the listing loop and all workers. The paginator of
  a listing request is the finite sequence of the outcomes of its \<open>NextPage\<close> calls
  (\<open>Inl\<close> an error); \<open>HasMorePages\<close> holds while the sequence is not exhausted.
  \<open>DeleteObjects\<close> answers a request with an error (the request itself failed) or
  with an output that itemizes the per-object failures.
\<close>

record s3Client =
  ListObjectVersionsPaginator :: "listObjectVersionsInput \<Rightarrow> (string + page) list"
  DeleteObjects :: "deleteObjectsInput \<Rightarrow> string + deleteObjectsOutput"

subsection \<open>Fatal exits\<close>

text \<open>
  Every \<open>log.Fatal\<close>, \<open>log.Fatalf\<close> and \<open>os.Exit(1)\<close> of the program, and the panic of
  the runtime in \<open>make\<close>, ends the process with a non-zero status.
\<close>

datatype fatal =
    UsageExit
  | IllegalBatchSize
  | ConfigFailed string
  | MakeSlicePanic
  | ListFailed string
  | OutOfPrefix string
  | DeleteFailed string

section \<open>Library functions\<close>

text \<open>\<open>strings.Trim(s, cutset)\<close>: \<open>s\<close> without all leading and trailing bytes of \<open>cutset\<close>.\<close>

definition Trim :: "string \<Rightarrow> string \<Rightarrow> string" where
  "Trim s cutset =
     rev (dropWhile (\<lambda>c. c \<in> set cutset) (rev (dropWhile (\<lambda>c. c \<in> set cutset) s)))"

text \<open>\<open>strings.HasPrefix(s, prefix)\<close>.\<close>

definition HasPrefix :: "string \<Rightarrow> string \<Rightarrow> bool" where
  "HasPrefix s prefix \<longleftrightarrow> length prefix \<le> length s \<and> take (length prefix) s = prefix"

text \<open>\<open>math.MaxInt\<close>, converted to \<open>uint\<close> for the comparison with the flag.\<close>

definition MaxInt :: "'w :: len word" where
  "MaxInt = mask (LENGTH('w) - 1)"

text \<open>
  \<open>make([]objectVersion, 0, cap)\<close>. The runtime (\<open>makeslice\<close>) panics with
  \<open>cap out of range\<close> when the capacity is negative or larger than the platform
  allocates for a slice of this element type; \<open>maxCap\<close> is that bound. Otherwise the
  result is the empty slice.
\<close>

definition make_objectVersions :: "nat \<Rightarrow> int \<Rightarrow> fatal + objectVersion list" where
  "make_objectVersions maxCap cap =
     (if cap < 0 \<or> int maxCap < cap then Inl MakeSlicePanic else Inr [])"

text \<open>The verb \<open>%d\<close> of \<open>fmt.Printf\<close> on an \<open>int\<close>.\<close>

definition digit_char :: "nat \<Rightarrow> char" where
  "digit_char d = ''0123456789'' ! d"

fun digits :: "nat \<Rightarrow> string" where
  "digits n = (if n < 10 then [digit_char n] else digits (n div 10) @ [digit_char (n mod 10)])"

definition fmt_d :: "int \<Rightarrow> string" where
  "fmt_d i = (if i < 0 then CHR ''-'' # digits (nat (- i)) else digits (nat i))"

section \<open>The Delete Worker: \<open>deleteObjectVersions\<close>\<close>

text \<open>Lines 35-48: the request built from a batch.\<close>

definition deleteParams :: "string \<Rightarrow> objectVersion list \<Rightarrow> deleteObjectsInput" where
  "deleteParams bucket objectVersions =
     \<lparr>Bucket = bucket,
      Delete = \<lparr>Objects = map (\<lambda>v. \<lparr>ObjectIdentifier_Key = Key v,
                                    ObjectIdentifier_VersionId = VersionId v\<rparr>) objectVersions,
                Quiet = True\<rparr>\<rparr>"

text \<open>
  What one run of the goroutine does: the requests it issued to the collaborator, the
  results it sent on \<open>resultChannel\<close>, and the fatal exit it took, if any.
\<close>

record (overloaded) ('w :: len) worker_run =
  issued :: "deleteObjectsInput list"
  sent :: "'w deleteBatchResult list"
  aborted :: "fatal option"

definition deleteObjectVersions ::
  "s3Client \<Rightarrow> string \<Rightarrow> objectVersion list \<Rightarrow> ('w :: len) worker_run" where
  "deleteObjectVersions client bucket objectVersions =
     (let params = deleteParams bucket objectVersions in
      case DeleteObjects client params of
        Inl err \<Rightarrow> \<lparr>issued = [params], sent = [], aborted = Some (DeleteFailed err)\<rparr>
      | Inr result \<Rightarrow>
          \<lparr>issued = [params],
           sent = [\<lparr>BatchSize = of_nat (length objectVersions),
                    ErrorCount = of_nat (length (Errors result))\<rparr>],
           aborted = None\<rparr>)"

section \<open>The Aggregator: the goroutine of lines 100-109\<close>

record (overloaded) ('w :: len) totals =
  numProcessed :: "'w word"
  numErrors :: "'w word"
  progress :: "string list"
  doneCalls :: nat

definition progress_line :: "('w :: len) word \<Rightarrow> 'w word \<Rightarrow> string" where
  "progress_line p e =
     fmt_d (sint p) @ '' objects deleted, '' @ fmt_d (sint e) @ '' errors'' @ [CHR 0x0A]"

definition receive :: "('w :: len) totals \<Rightarrow> 'w deleteBatchResult \<Rightarrow> 'w totals" where
  "receive t r =
     (let p = numProcessed t + BatchSize r;
          e = numErrors t + ErrorCount r
      in \<lparr>numProcessed = p, numErrors = e,
          progress = progress t @ [progress_line p e],
          doneCalls = doneCalls t + 1\<rparr>)"

definition aggregator :: "('w :: len) deleteBatchResult list \<Rightarrow> 'w totals" where
  "aggregator rs =
     foldl receive \<lparr>numProcessed = 0, numErrors = 0, progress = [], doneCalls = 0\<rparr> rs"

section \<open>The Batch Accumulator and the listing loop of \<open>main\<close>\<close>

text \<open>
  The variables of \<open>main\<close> that the closure \<open>deleteVersion\<close> captures and updates.
  \<open>dispatched\<close> holds the batches handed to a \<open>go deleteObjectVersions\<close>, in the order
  of the \<open>waitGroup.Add(1)\<close> calls. A fatal exit keeps the state it happened in.
\<close>

record (overloaded) ('w :: len) loop_state =
  batch :: "objectVersion list"
  numObjects :: "'w word"
  dispatched :: "objectVersion list list"

type_synonym 'w loop_result = "(fatal \<times> 'w loop_state) + 'w loop_state"

definition deleteVersion ::
  "string \<Rightarrow> ('w :: len) word \<Rightarrow> string \<Rightarrow> string \<Rightarrow> 'w loop_state \<Rightarrow> 'w loop_result" where
  "deleteVersion prefix batchSize key versionId s =
     (if prefix \<noteq> [] \<and> \<not> HasPrefix key prefix then Inl (OutOfPrefix key, s)
      else
        let s1 = s\<lparr>batch := batch s @ [\<lparr>Key = key, VersionId = versionId\<rparr>]\<rparr>;
            s2 = s1\<lparr>numObjects := numObjects s1 + 1\<rparr>
        in if int (length (batch s2)) = sint batchSize
           then Inr (s2\<lparr>dispatched := dispatched s2 @ [batch s2], batch := []\<rparr>)
           else Inr s2)"

text \<open>
  Line 128 repeats the allocation of line 96 with the same capacity. The closure runs
  only after line 96 has returned, so the capacity check of \<open>make\<close> passes again and the
  new batch is the empty slice.
\<close>

text \<open>The two \<open>range\<close> loops of lines 131-136.\<close>

fun range_deleteVersion ::
  "string \<Rightarrow> ('w :: len) word \<Rightarrow> (string \<times> string) list \<Rightarrow> 'w loop_state \<Rightarrow> 'w loop_result" where
  "range_deleteVersion prefix batchSize [] s = Inr s"
| "range_deleteVersion prefix batchSize (v # vs) s =
     (case deleteVersion prefix batchSize (fst v) (snd v) s of
        Inl f \<Rightarrow> Inl f
      | Inr s' \<Rightarrow> range_deleteVersion prefix batchSize vs s')"

text \<open>The loop of lines 111-137 over the paginator.\<close>

fun listing_loop ::
  "string \<Rightarrow> ('w :: len) word \<Rightarrow> (string + page) list \<Rightarrow> 'w loop_state \<Rightarrow> 'w loop_result" where
  "listing_loop prefix batchSize [] s = Inr s"
| "listing_loop prefix batchSize (Inl err # rest) s = Inl (ListFailed err, s)"
| "listing_loop prefix batchSize (Inr page # rest) s =
     (case range_deleteVersion prefix batchSize (Versions page) s of
        Inl f \<Rightarrow> Inl f
      | Inr s1 \<Rightarrow>
          (case range_deleteVersion prefix batchSize (DeleteMarkers page) s1 of
             Inl f \<Rightarrow> Inl f
           | Inr s2 \<Rightarrow> listing_loop prefix batchSize rest s2))"

text \<open>Lines 138-141: the final flush.\<close>

definition final_flush :: "('w :: len) loop_state \<Rightarrow> 'w loop_state" where
  "final_flush s =
     (if length (batch s) > 0 then s\<lparr>dispatched := dispatched s @ [batch s]\<rparr> else s)"

definition initial_state :: "('w :: len) loop_state" where
  "initial_state = \<lparr>batch = [], numObjects = 0, dispatched = []\<rparr>"

section \<open>\<open>main\<close>\<close>

record (overloaded) ('w :: len) flags =
  fPrefix :: string
  fBucket :: string
  fBatchSize :: "'w word"
  fRegion :: string

text \<open>Lines 67-70.\<close>

definition normalized_prefix :: "string \<Rightarrow> string" where
  "normalized_prefix p =
     (let prefix = Trim p ''/'' in if prefix \<noteq> [] then prefix @ ''/'' else prefix)"

text \<open>The fatal exits that the workers take, in the order of their dispatch.\<close>

fun aborts :: "('w :: len) worker_run list \<Rightarrow> fatal list" where
  "aborts [] = []"
| "aborts (w # ws) = (case aborted w of Some f \<Rightarrow> f # aborts ws | None \<Rightarrow> aborts ws)"

text \<open>
  Goroutines that reach a fatal exit race for \<open>os.Exit\<close>: the process ends with the exit
  of whichever comes first in time. \<open>race\<close> stands for the schedule; it selects one of
  the exits \<open>f # fs\<close> that the goroutines of the run reach.
\<close>

definition first_exit :: "nat \<Rightarrow> fatal \<Rightarrow> fatal list \<Rightarrow> fatal" where
  "first_exit race f fs = (f # fs) ! (race mod Suc (length fs))"

text \<open>
  A run that reaches the end of \<open>main\<close>: the variables of the listing loop after the
  final flush, the Aggregator's variables when \<open>waitGroup.Wait\<close> returns, and what was
  written to standard output.
\<close>

record (overloaded) ('w :: len) finished =
  final_state :: "'w loop_state"
  final_totals :: "'w totals"
  stdout :: "string list"

text \<open>
  \<open>main\<close>, for the flags parsed by \<open>flag.Parse\<close>. \<open>LoadDefaultConfig\<close> maps the region to
  a client or an error. The conversion \<open>int(*fBatchSize)\<close> keeps the bits of the flag,
  which \<open>make\<close> and \<open>deleteVersion\<close> read as an \<open>int\<close>.

  The workers run concurrently with the listing. \<open>arrival\<close> is the order in which the
  channel \<open>results\<close> hands their results to the Aggregator (any permutation of what was
  sent). \<open>waitGroup.Wait\<close> returns once every dispatched worker has sent its result and
  the Aggregator has called \<open>Done\<close> for it, so the run reaches the final print only when
  no worker exits fatally. When the listing fails, the workers dispatched before may
  fail as well, and when it completes, several workers may fail: the process ends with
  the exit that \<open>race\<close> selects among them.
\<close>

definition main ::
  "nat \<Rightarrow> nat \<Rightarrow> (('w :: len) deleteBatchResult list \<Rightarrow> 'w deleteBatchResult list) \<Rightarrow>
   (string \<Rightarrow> string + s3Client) \<Rightarrow> 'w flags \<Rightarrow> fatal + 'w finished" where
  "main maxCap race arrival LoadDefaultConfig fl =
     (let prefix = normalized_prefix (fPrefix fl) in
      if fBucket fl = [] then Inl UsageExit
      else if fBatchSize fl > MaxInt then Inl IllegalBatchSize
      else
        let batchSize = fBatchSize fl in
        case LoadDefaultConfig (fRegion fl) of
          Inl err \<Rightarrow> Inl (ConfigFailed err)
        | Inr s3Client \<Rightarrow>
            (case make_objectVersions maxCap (sint batchSize) of
               Inl panic \<Rightarrow> Inl panic
             | Inr allocated \<Rightarrow>
                 (case listing_loop prefix batchSize
                         (ListObjectVersionsPaginator s3Client
                            \<lparr>List_Bucket = fBucket fl, List_Prefix = prefix\<rparr>)
                         \<lparr>batch = allocated, numObjects = 0, dispatched = []\<rparr> of
                    Inl (f, s) \<Rightarrow>
                      Inl (first_exit race f
                             (aborts (map (deleteObjectVersions s3Client (fBucket fl))
                                        (dispatched s) :: 'w worker_run list)))
                  | Inr s \<Rightarrow>
                      let s' = final_flush s;
                          workers = map (deleteObjectVersions s3Client (fBucket fl))
                                      (dispatched s')
                      in (case aborts workers of
                            f # fs \<Rightarrow> Inl (first_exit race f fs)
                          | [] \<Rightarrow>
                              let t = aggregator (arrival (concat (map sent workers)))
                              in Inr \<lparr>final_state = s', final_totals = t,
                                      stdout = progress t @
                                        [''total number of objects: '' @
                                         fmt_d (sint (numObjects s'))]\<rparr>))))"

section \<open>Notions used to state the properties\<close>

text \<open>The entry a listed (key, version id) pair becomes in a batch (lines 120-123).\<close>

definition entry_of :: "string \<times> string \<Rightarrow> objectVersion" where
  "entry_of e = \<lparr>Key = fst e, VersionId = snd e\<rparr>"

text \<open>A key passes the check of line 117.\<close>

definition in_scope :: "string \<Rightarrow> string \<Rightarrow> bool" where
  "in_scope prefix key \<longleftrightarrow> prefix = [] \<or> HasPrefix key prefix"

text \<open>
  The order in which the listing produces the entries: page by page, within a page
  all versions first, then all delete markers.
\<close>

definition listing_order :: "page list \<Rightarrow> (string \<times> string) list" where
  "listing_order pages = concat (map (\<lambda>p. Versions p @ DeleteMarkers p) pages)"

text \<open>
  The number of per-item errors the collaborator reports for a request (none when the
  request itself fails).
\<close>

definition reported_errors :: "s3Client \<Rightarrow> deleteObjectsInput \<Rightarrow> nat" where
  "reported_errors client params =
     (case DeleteObjects client params of Inl err \<Rightarrow> 0 | Inr result \<Rightarrow> length (Errors result))"

text \<open>
  \<open>main\<close> reaches the listing loop with the client \<open>client\<close>: the bucket is given, the
  batch size is accepted, the configuration loads and line 96 allocates the batch.
\<close>

definition reaches_listing ::
  "nat \<Rightarrow> (string \<Rightarrow> string + s3Client) \<Rightarrow> ('w :: len) flags \<Rightarrow> s3Client \<Rightarrow> bool" where
  "reaches_listing maxCap LoadDefaultConfig fl client \<longleftrightarrow>
     fBucket fl \<noteq> [] \<and> fBatchSize fl \<le> MaxInt \<and>
     LoadDefaultConfig (fRegion fl) = Inr client \<and>
     sint (fBatchSize fl) \<le> int maxCap"

text \<open>
  \<open>main\<close> gets past the configuration with the client \<open>client\<close>, line 96 allocates
  the batch, and the listing loop runs to the end of the listing and leaves the state
  \<open>s\<close>.
\<close>

definition listing_completes ::
  "nat \<Rightarrow> (string \<Rightarrow> string + s3Client) \<Rightarrow> ('w :: len) flags \<Rightarrow> s3Client \<Rightarrow>
   'w loop_state \<Rightarrow> bool" where
  "listing_completes maxCap LoadDefaultConfig fl client s \<longleftrightarrow>
     fBucket fl \<noteq> [] \<and> fBatchSize fl \<le> MaxInt \<and>
     LoadDefaultConfig (fRegion fl) = Inr client \<and>
     sint (fBatchSize fl) \<le> int maxCap \<and>
     listing_loop (normalized_prefix (fPrefix fl)) (fBatchSize fl)
       (ListObjectVersionsPaginator client
          \<lparr>List_Bucket = fBucket fl, List_Prefix = normalized_prefix (fPrefix fl)\<rparr>)
       initial_state = Inr s"

section \<open>Concrete runs\<close>

text \<open>
  A listing of one page with two versions and one delete marker under \<open>logs/\<close>, a
  collaborator that reports one per-item error for every request naming a single object,
  and the flags \<open>-prefix /logs/ -bucket bucket -batch 2\<close> on a 64-bit platform.
\<close>

definition example_pages :: "page list" where
  "example_pages =
     [\<lparr>Versions = [(''logs/a'', ''1''), (''logs/a'', ''2'')],
       DeleteMarkers = [(''logs/b'', ''1'')]\<rparr>]"

definition example_client :: s3Client where
  "example_client =
     \<lparr>ListObjectVersionsPaginator =
        (\<lambda>input. if List_Prefix input = ''logs/'' then map Inr example_pages else []),
      DeleteObjects =
        (\<lambda>params. Inr \<lparr>Errors =
           (if length (Objects (Delete params)) = 1
            then [\<lparr>Error_Code = ''AccessDenied'', Error_Key = ''logs/b'',
                   Error_Message = ''Access Denied'', Error_VersionId = ''1''\<rparr>]
            else [])\<rparr>)\<rparr>"

definition example_load :: "string \<Rightarrow> string + s3Client" where
  "example_load region = Inr example_client"

definition example_flags :: "64 flags" where
  "example_flags =
     \<lparr>fPrefix = ''/logs/'', fBucket = ''bucket'', fBatchSize = 2, fRegion = ''eu-west-1''\<rparr>"

text \<open>
  The same collaborator with a delete operation whose every request fails, a bucket
  without entries, a listing with a stray key under the prefix \<open>a/b/\<close> with a
  collaborator that yields it for that prefix and the flags \<open>-prefix //a/b\<close>, and flags
  whose prefix consists of slashes only.
\<close>

definition failing_client :: s3Client where
  "failing_client = example_client\<lparr>DeleteObjects := (\<lambda>params. Inl ''RequestTimeout'')\<rparr>"

definition failing_load :: "string \<Rightarrow> string + s3Client" where
  "failing_load region = Inr failing_client"

definition empty_client :: s3Client where
  "empty_client =
     \<lparr>ListObjectVersionsPaginator = (\<lambda>input. [Inr \<lparr>Versions = [], DeleteMarkers = []\<rparr>]),
      DeleteObjects = (\<lambda>params. Inl ''RequestTimeout'')\<rparr>"

definition empty_load :: "string \<Rightarrow> string + s3Client" where
  "empty_load region = Inr empty_client"

definition stray_pages :: "page list" where
  "stray_pages =
     [\<lparr>Versions = [(''a/b/x'', ''1''), (''c/d'', ''1''), (''a/b/y'', ''1'')],
       DeleteMarkers = [(''a/b/z'', ''2'')]\<rparr>]"

definition stray_client :: s3Client where
  "stray_client =
     \<lparr>ListObjectVersionsPaginator =
        (\<lambda>input. if List_Prefix input = ''a/b/'' then map Inr stray_pages else []),
      DeleteObjects = (\<lambda>params. Inr \<lparr>Errors = []\<rparr>)\<rparr>"

definition stray_load :: "string \<Rightarrow> string + s3Client" where
  "stray_load region = Inr stray_client"

definition stray_flags :: "64 flags" where
  "stray_flags =
     \<lparr>fPrefix = ''//a/b'', fBucket = ''bucket'', fBatchSize = 2, fRegion = ''eu-west-1''\<rparr>"

text \<open>A bucket whose listing without a prefix yields the pages above.\<close>

definition bucket_client :: s3Client where
  "bucket_client =
     \<lparr>ListObjectVersionsPaginator =
        (\<lambda>input. if List_Prefix input = [] then map Inr stray_pages else []),
      DeleteObjects = (\<lambda>params. Inr \<lparr>Errors = []\<rparr>)\<rparr>"

definition bucket_load :: "string \<Rightarrow> string + s3Client" where
  "bucket_load region = Inr bucket_client"

definition slash_flags :: "64 flags" where
  "slash_flags =
     \<lparr>fPrefix = ''///'', fBucket = ''bucket'', fBatchSize = 1000, fRegion = ''eu-west-1''\<rparr>"

section \<open>The closure \<open>deleteVersion\<close> and the loops around it\<close>

lemma deleteVersion_accepts:
  assumes "in_scope prefix key"
  shows "\<exists>s'. deleteVersion prefix C key v s = Inr s' \<and>
           concat (dispatched s') @ batch s' = concat (dispatched s) @ batch s @ [\<lparr>Key = key, VersionId = v\<rparr>] \<and>
           numObjects s' = numObjects s + 1 \<and>
           (if int (length (batch s)) + 1 = sint C
            then dispatched s' = dispatched s @ [batch s @ [\<lparr>Key = key, VersionId = v\<rparr>]] \<and> batch s' = []
            else dispatched s' = dispatched s \<and> batch s' = batch s @ [\<lparr>Key = key, VersionId = v\<rparr>])"
  using assms by (auto simp: deleteVersion_def in_scope_def Let_def)

lemma deleteVersion_rejects:
  assumes "\<not> in_scope prefix key"
  shows "deleteVersion prefix C key v s = Inl (OutOfPrefix key, s)"
  using assms by (simp add: deleteVersion_def in_scope_def)

lemma range_append:
  "range_deleteVersion prefix C (xs @ ys) s =
     (case range_deleteVersion prefix C xs s of
        Inl f \<Rightarrow> Inl f
      | Inr s' \<Rightarrow> range_deleteVersion prefix C ys s')"
  by (induction xs arbitrary: s) (auto split: sum.splits)

lemma listing_loop_pages:
  "listing_loop prefix C (map Inr pages) s = range_deleteVersion prefix C (listing_order pages) s"
  by (induction pages arbitrary: s) (auto simp: listing_order_def range_append split: sum.splits)

lemma range_accumulates:
  assumes "\<forall>e\<in>set es. in_scope prefix (fst e)"
  shows "\<exists>s'. range_deleteVersion prefix C es s = Inr s' \<and>
           concat (dispatched s') @ batch s' = concat (dispatched s) @ batch s @ map entry_of es \<and>
           numObjects s' = numObjects s + of_nat (length es)"
  using assms
proof (induction es arbitrary: s)
  case Nil
  then show ?case by simp
next
  case (Cons e es)
  from Cons.prems have "in_scope prefix (fst e)" by simp
  from deleteVersion_accepts[OF this, of C "snd e" s]
  obtain s1 where s1: "deleteVersion prefix C (fst e) (snd e) s = Inr s1"
    "concat (dispatched s1) @ batch s1 = concat (dispatched s) @ batch s @ [entry_of e]"
    "numObjects s1 = numObjects s + 1"
    by (auto simp: entry_of_def)
  from Cons.IH[of s1] Cons.prems
  obtain s' where s': "range_deleteVersion prefix C es s1 = Inr s'"
    "concat (dispatched s') @ batch s' = concat (dispatched s1) @ batch s1 @ map entry_of es"
    "numObjects s' = numObjects s1 + of_nat (length es)"
    by auto
  show ?case using s1 s' by (simp add: algebra_simps)
qed

lemma range_sizes:
  assumes "0 < sint C" "\<forall>e\<in>set es. in_scope prefix (fst e)"
    and "int (length (batch s)) < sint C" "\<forall>b\<in>set (dispatched s). int (length b) = sint C"
    and "range_deleteVersion prefix C es s = Inr s'"
  shows "int (length (batch s')) < sint C \<and> (\<forall>b\<in>set (dispatched s'). int (length b) = sint C)"
  using assms
proof (induction es arbitrary: s)
  case Nil
  then show ?case by simp
next
  case (Cons e es)
  from Cons.prems have "in_scope prefix (fst e)" by simp
  from deleteVersion_accepts[OF this, of C "snd e" s]
  obtain s1 where s1: "deleteVersion prefix C (fst e) (snd e) s = Inr s1"
    "if int (length (batch s)) + 1 = sint C
            then dispatched s1 = dispatched s @ [batch s @ [\<lparr>Key = fst e, VersionId = snd e\<rparr>]] \<and> batch s1 = []
            else dispatched s1 = dispatched s \<and> batch s1 = batch s @ [\<lparr>Key = fst e, VersionId = snd e\<rparr>]"
    by auto
  have a: "int (length (batch s1)) < sint C" using s1(2) Cons.prems(1,3) by (auto split: if_splits)
  have b: "\<forall>b\<in>set (dispatched s1). int (length b) = sint C" using s1(2) Cons.prems(4) by (auto split: if_splits)
  from Cons.prems(5) s1(1) have r: "range_deleteVersion prefix C es s1 = Inr s'" by simp
  show ?case using Cons.IH[OF Cons.prems(1) _ a b r] Cons.prems(2) by simp
qed

lemma range_never_seals:
  assumes "sint C \<le> 0" "\<forall>e\<in>set es. in_scope prefix (fst e)"
    and "range_deleteVersion prefix C es s = Inr s'"
  shows "dispatched s' = dispatched s \<and> batch s' = batch s @ map entry_of es"
  using assms
proof (induction es arbitrary: s)
  case Nil
  then show ?case by simp
next
  case (Cons e es)
  from Cons.prems have "in_scope prefix (fst e)" by simp
  from deleteVersion_accepts[OF this, of C "snd e" s]
  obtain s1 where s1: "deleteVersion prefix C (fst e) (snd e) s = Inr s1"
    "if int (length (batch s)) + 1 = sint C
            then dispatched s1 = dispatched s @ [batch s @ [\<lparr>Key = fst e, VersionId = snd e\<rparr>]] \<and> batch s1 = []
            else dispatched s1 = dispatched s \<and> batch s1 = batch s @ [\<lparr>Key = fst e, VersionId = snd e\<rparr>]"
    by auto
  have ne: "int (length (batch s)) + 1 \<noteq> sint C" using Cons.prems(1) by linarith
  from s1(2) ne have a: "dispatched s1 = dispatched s" "batch s1 = batch s @ [entry_of e]"
    by (auto simp: entry_of_def)
  from Cons.prems(3) s1(1) have r: "range_deleteVersion prefix C es s1 = Inr s'" by simp
  show ?case using Cons.IH[OF Cons.prems(1) _ r] Cons.prems(2) a by simp
qed

lemma range_completes:
  assumes "range_deleteVersion prefix C es s0 = Inr s"
  shows "\<forall>e\<in>set es. in_scope prefix (fst e)"
  using assms
proof (induction es arbitrary: s0)
  case Nil
  then show ?case by simp
next
  case (Cons e es)
  show ?case
  proof (cases "in_scope prefix (fst e)")
    case True
    with Cons show ?thesis by (auto split: sum.splits)
  next
    case False
    from deleteVersion_rejects[OF this, of C "snd e" s0] Cons.prems show ?thesis by simp
  qed
qed

lemma listing_loop_completes:
  assumes "listing_loop prefix C outs s0 = Inr s"
  shows "\<exists>pages. outs = map Inr pages \<and> (\<forall>e\<in>set (listing_order pages). in_scope prefix (fst e))"
  using assms
proof (induction outs arbitrary: s0)
  case Nil
  then show ?case by (simp add: listing_order_def)
next
  case (Cons out outs)
  from Cons.prems obtain p where p: "out = Inr p" by (cases out) auto
  from Cons.prems p obtain s1 s2 where
    v: "range_deleteVersion prefix C (Versions p) s0 = Inr s1" and
    d: "range_deleteVersion prefix C (DeleteMarkers p) s1 = Inr s2" and
    r: "listing_loop prefix C outs s2 = Inr s"
    by (auto split: sum.splits)
  from Cons.IH[OF r] obtain pages where pages: "outs = map Inr pages"
    "\<forall>e\<in>set (listing_order pages). in_scope prefix (fst e)" by blast
  have "out # outs = map Inr (p # pages)" using p pages(1) by simp
  moreover have "\<forall>e\<in>set (listing_order (p # pages)). in_scope prefix (fst e)"
    using range_completes[OF v] range_completes[OF d] pages(2)
    by (auto simp: listing_order_def)
  ultimately show ?case by (intro exI[of _ "p # pages"] conjI)
qed

lemma listing_loop_append:
  "listing_loop prefix C (xs @ ys) s =
     (case listing_loop prefix C xs s of
        Inl f \<Rightarrow> Inl f
      | Inr s' \<Rightarrow> listing_loop prefix C ys s')"
proof (induction xs arbitrary: s)
  case Nil
  then show ?case by simp
next
  case (Cons x xs)
  then show ?case by (cases x) (auto split: sum.splits)
qed

lemma range_stops_at_violation:
  assumes "\<not> in_scope prefix key"
    and "range_deleteVersion prefix C before s0 = Inr s"
  shows "range_deleteVersion prefix C (before @ (key, versionId) # after) s0 = Inl (OutOfPrefix key, s)"
  using assms by (simp add: range_append deleteVersion_rejects)

lemma deleteVersion_fatal_kind:
  assumes "deleteVersion prefix C key v s0 = Inl (f, s)"
  shows "f = OutOfPrefix key"
  using assms by (auto simp: deleteVersion_def Let_def split: if_splits)

lemma range_fatal_kind:
  assumes "range_deleteVersion prefix C es s0 = Inl (f, s)"
  shows "\<exists>key. f = OutOfPrefix key"
  using assms
proof (induction es arbitrary: s0)
  case Nil
  then show ?case by simp
next
  case (Cons e es)
  show ?case
  proof (cases "deleteVersion prefix C (fst e) (snd e) s0")
    case (Inl a)
    with Cons.prems have "deleteVersion prefix C (fst e) (snd e) s0 = Inl (f, s)" by simp
    then show ?thesis by (blast dest: deleteVersion_fatal_kind)
  next
    case (Inr s1)
    with Cons.prems have "range_deleteVersion prefix C es s1 = Inl (f, s)" by simp
    then show ?thesis by (rule Cons.IH)
  qed
qed

lemma listing_loop_fatal_kind:
  assumes "listing_loop prefix C outs s0 = Inl (f, s)"
  shows "(\<exists>err. f = ListFailed err) \<or> (\<exists>key. f = OutOfPrefix key)"
  using assms
proof (induction outs arbitrary: s0)
  case Nil
  then show ?case by simp
next
  case (Cons out outs)
  show ?case
  proof (cases out)
    case (Inl err)
    with Cons.prems show ?thesis by auto
  next
    case (Inr p)
    show ?thesis
    proof (cases "range_deleteVersion prefix C (Versions p) s0")
      case (Inl a)
      with Cons.prems Inr have "range_deleteVersion prefix C (Versions p) s0 = Inl (f, s)" by simp
      then show ?thesis by (blast dest: range_fatal_kind)
    next
      case v: (Inr s1)
      show ?thesis
      proof (cases "range_deleteVersion prefix C (DeleteMarkers p) s1")
        case (Inl a)
        with Cons.prems Inr v have "range_deleteVersion prefix C (DeleteMarkers p) s1 = Inl (f, s)"
          by simp
        then show ?thesis by (blast dest: range_fatal_kind)
      next
        case d: (Inr s2)
        with Cons.prems Inr v have "listing_loop prefix C outs s2 = Inl (f, s)" by simp
        then show ?thesis by (rule Cons.IH)
      qed
    qed
  qed
qed

section \<open>Arithmetic of batch counts\<close>

lemma ceiling_div_nat:
  assumes "0 < c"
  shows "\<lceil>real N / real c\<rceil> = int (N div c) + (if N mod c = 0 then 0 else 1)"
proof -
  have "\<lceil>real N / real c\<rceil> = \<lceil>(of_int (int N) :: real) / of_int (int c)\<rceil>" by simp
  also have "\<dots> = - (- int N div int c)" by (rule ceiling_divide_eq_div)
  also have "\<dots> = int (N div c) + (if N mod c = 0 then 0 else 1)"
  proof -
    have "int c \<noteq> 0" using assms by simp
    from zdiv_zminus1_eq_if[OF this, of "int N"]
    have "- int N div int c = (if int N mod int c = 0 then - (int N div int c) else - (int N div int c) - 1)" .
    moreover have "int N mod int c = int (N mod c)" by (simp add: zmod_int)
    moreover have "int N div int c = int (N div c)" by (simp add: zdiv_int)
    ultimately show ?thesis by simp
  qed
  finally show ?thesis .
qed

lemma length_concat_uniform:
  assumes "\<forall>b\<in>set bs. length b = c"
  shows "length (concat bs) = length bs * c"
  using assms by (induction bs) simp_all

lemma split_count:
  fixes c :: nat
  assumes "N = k * c + r" "r < c"
  shows "k = N div c \<and> r = N mod c"
  using assms by simp

lemma sint_accepted:
  fixes C :: "'w :: len word"
  assumes "C \<le> MaxInt"
  shows "sint C = int (unat C)"
proof -
  have "uint C \<le> uint (MaxInt :: 'w word)" using assms by (simp add: word_le_def)
  also have "\<dots> = 2 ^ (LENGTH('w) - 1) - 1"
    by (simp add: MaxInt_def uint_mask_eq mask_int_def min_def)
  finally have "uint C < 2 ^ (LENGTH('w) - 1)" by simp
  moreover have "- (2 ^ (LENGTH('w) - 1)) \<le> uint C"
    by (rule order_trans[of _ 0]) simp_all
  ultimately have "signed_take_bit (LENGTH('w) - 1) (uint C) = uint C"
    by (rule signed_take_bit_int_eq_self[rotated])
  then show ?thesis by (simp add: sint_uint)
qed

lemma accumulator_shape:
  fixes C :: "'w :: len word"
  assumes pos: "0 < sint C"
    and scope: "\<forall>e\<in>set es. in_scope prefix (fst e)"
  shows "\<exists>s. range_deleteVersion prefix C es initial_state = Inr s \<and>
           concat (dispatched s) @ batch s = map entry_of es \<and>
           numObjects s = of_nat (length es) \<and>
           (\<forall>b\<in>set (dispatched s). length b = nat (sint C)) \<and>
           length (dispatched s) = length es div nat (sint C) \<and>
           length (batch s) = length es mod nat (sint C)"
proof -
  let ?c = "nat (sint C)"
  from range_accumulates[OF scope, of C initial_state]
  obtain s where s: "range_deleteVersion prefix C es initial_state = Inr s"
    "concat (dispatched s) @ batch s = map entry_of es"
    "numObjects s = of_nat (length es)"
    by (auto simp: initial_state_def)
  have "int (length (batch s)) < sint C \<and> (\<forall>b\<in>set (dispatched s). int (length b) = sint C)"
    by (rule range_sizes[OF pos scope _ _ s(1)]) (use pos in \<open>simp_all add: initial_state_def\<close>)
  then have small: "length (batch s) < ?c" and full: "\<forall>b\<in>set (dispatched s). length b = ?c"
    using pos by auto
  have "length (map entry_of es) = length (concat (dispatched s)) + length (batch s)"
    using s(2) by (metis length_append)
  then have "length es = length (dispatched s) * ?c + length (batch s)"
    using length_concat_uniform[OF full] by simp
  from split_count[OF this small] s full show ?thesis by blast
qed

lemma distinct_concat_nth_disjoint:
  assumes "distinct (concat xss)" "i < j" "j < length xss"
  shows "set (xss ! i) \<inter> set (xss ! j) = {}"
  using assms
proof (induction xss arbitrary: i j)
  case Nil
  then show ?case by simp
next
  case (Cons xs xss)
  from Cons.prems(2) obtain j' where j: "j = Suc j'" by (cases j) auto
  with Cons.prems(3) have j': "j' < length xss" by simp
  show ?case
  proof (cases i)
    case 0
    have "xss ! j' \<in> set xss" using j' by simp
    then have "set (xss ! j') \<subseteq> set (concat xss)" by auto
    moreover have "set xs \<inter> set (concat xss) = {}" using Cons.prems(1) by simp
    ultimately show ?thesis using 0 j by auto
  next
    case (Suc i')
    with Cons.prems(2) j have "i' < j'" by simp
    moreover have "distinct (concat xss)" using Cons.prems(1) by simp
    ultimately show ?thesis using Cons.IH[of i' j'] j' Suc j by simp
  qed
qed

section \<open>Workers and the Aggregator\<close>

lemma foldl_receive_totals:
  "numProcessed (foldl receive t rs) = numProcessed t + sum_list (map BatchSize rs) \<and>
   numErrors (foldl receive t rs) = numErrors t + sum_list (map ErrorCount rs) \<and>
   doneCalls (foldl receive t rs) = doneCalls t + length rs \<and>
   length (progress (foldl receive t rs)) = length (progress t) + length rs"
  by (induction rs arbitrary: t) (simp_all add: receive_def Let_def algebra_simps)

lemma aggregator_totals:
  "numProcessed (aggregator rs) = sum_list (map BatchSize rs)"
  "numErrors (aggregator rs) = sum_list (map ErrorCount rs)"
  "doneCalls (aggregator rs) = length rs"
  "length (progress (aggregator rs)) = length rs"
  using foldl_receive_totals[of "\<lparr>numProcessed = 0, numErrors = 0, progress = [], doneCalls = 0\<rparr>" rs]
  by (simp_all add: aggregator_def)

lemma sum_list_permuted:
  fixes f :: "'a \<Rightarrow> 'b :: comm_monoid_add"
  assumes "mset xs = mset ys"
  shows "sum_list (map f xs) = sum_list (map f ys)"
proof -
  have "sum_list (map f xs) = sum_mset (image_mset f (mset xs))"
    by (metis mset_map sum_mset_sum_list)
  also have "\<dots> = sum_mset (image_mset f (mset ys))" using assms by simp
  also have "\<dots> = sum_list (map f ys)" by (metis mset_map sum_mset_sum_list)
  finally show ?thesis .
qed

lemma worker_cases:
  "(\<exists>err. DeleteObjects client (deleteParams bucket b) = Inl err \<and>
      (deleteObjectVersions client bucket b :: 'w :: len worker_run) =
        \<lparr>issued = [deleteParams bucket b], sent = [], aborted = Some (DeleteFailed err)\<rparr>) \<or>
   (\<exists>result. DeleteObjects client (deleteParams bucket b) = Inr result \<and>
      (deleteObjectVersions client bucket b :: 'w worker_run) =
        \<lparr>issued = [deleteParams bucket b],
         sent = [\<lparr>BatchSize = of_nat (length b), ErrorCount = of_nat (length (Errors result))\<rparr>],
         aborted = None\<rparr>)"
  by (cases "DeleteObjects client (deleteParams bucket b)")
     (simp_all add: deleteObjectVersions_def Let_def)

lemma workers_all_report:
  assumes "aborts (map (deleteObjectVersions client bucket) ds :: 'w :: len worker_run list) = []"
  shows "concat (map sent (map (deleteObjectVersions client bucket) ds :: 'w worker_run list)) =
           map (\<lambda>b. \<lparr>BatchSize = of_nat (length b),
                      ErrorCount = of_nat (reported_errors client (deleteParams bucket b))\<rparr>) ds \<and>
         (\<forall>b\<in>set ds. \<exists>result. DeleteObjects client (deleteParams bucket b) = Inr result)"
  using assms
proof (induction ds)
  case Nil
  then show ?case by simp
next
  case (Cons b ds)
  from worker_cases[of client bucket b, where 'w = 'w] Cons.prems
  obtain result where r: "DeleteObjects client (deleteParams bucket b) = Inr result"
    "(deleteObjectVersions client bucket b :: 'w worker_run) =
        \<lparr>issued = [deleteParams bucket b],
         sent = [\<lparr>BatchSize = of_nat (length b), ErrorCount = of_nat (length (Errors result))\<rparr>],
         aborted = None\<rparr>"
    by auto
  with Cons.prems have "aborts (map (deleteObjectVersions client bucket) ds :: 'w worker_run list) = []"
    by simp
  from Cons.IH[OF this] r show ?case by (simp add: reported_errors_def)
qed

lemma sum_list_word_lengths:
  "sum_list (map (\<lambda>b. (of_nat (length b) :: 'w :: len word)) ds) = of_nat (length (concat ds))"
  by (induction ds) simp_all

lemma sum_list_word_of_nat:
  "sum_list (map (\<lambda>b. (of_nat (f b) :: 'w :: len word)) ds) = of_nat (sum_list (map f ds))"
  by (induction ds) simp_all

lemma aborts_none:
  assumes "\<forall>b\<in>set ds. \<exists>result. DeleteObjects client (deleteParams bucket b) = Inr result"
  shows "aborts (map (deleteObjectVersions client bucket) ds :: 'w :: len worker_run list) = []"
  using assms by (induction ds) (auto simp: deleteObjectVersions_def Let_def)

lemma aborts_kind:
  assumes "f \<in> set (aborts (map (deleteObjectVersions client bucket) ds :: 'w :: len worker_run list))"
  shows "\<exists>err. f = DeleteFailed err"
  using assms
proof (induction ds)
  case Nil
  then show ?case by simp
next
  case (Cons d ds)
  then show ?case
    by (cases "DeleteObjects client (deleteParams bucket d)")
       (auto simp: deleteObjectVersions_def Let_def)
qed

lemma aborts_some:
  assumes "b \<in> set ds" "DeleteObjects client (deleteParams bucket b) = Inl err"
  shows "aborts (map (deleteObjectVersions client bucket) ds :: 'w :: len worker_run list) \<noteq> []"
  using assms
proof (induction ds)
  case Nil
  then show ?case by simp
next
  case (Cons d ds)
  then show ?case
    by (cases "DeleteObjects client (deleteParams bucket d)")
       (auto simp: deleteObjectVersions_def Let_def)
qed

lemma first_exit_mem: "first_exit race f fs \<in> set (f # fs)"
  unfolding first_exit_def by (rule nth_mem) simp

lemma make_returns:
  fixes C :: "'w :: len word"
  assumes "C \<le> MaxInt" "sint C \<le> int maxCap"
  shows "make_objectVersions maxCap (sint C) = Inr []"
  using assms sint_accepted[OF assms(1)] by (simp add: make_objectVersions_def)

lemma main_after_listing:
  fixes fl :: "'w :: len flags"
  assumes "listing_completes maxCap load fl client s"
  shows "main maxCap race arrival load fl =
           (case aborts (map (deleteObjectVersions client (fBucket fl)) (dispatched (final_flush s))
                           :: 'w worker_run list) of
              f # fs \<Rightarrow> Inl (first_exit race f fs)
            | [] \<Rightarrow>
                Inr \<lparr>final_state = final_flush s,
                     final_totals = aggregator (arrival (concat (map sent
                        (map (deleteObjectVersions client (fBucket fl)) (dispatched (final_flush s))
                           :: 'w worker_run list)))),
                     stdout = progress (aggregator (arrival (concat (map sent
                        (map (deleteObjectVersions client (fBucket fl)) (dispatched (final_flush s))
                           :: 'w worker_run list))))) @
                       [''total number of objects: '' @ fmt_d (sint (numObjects (final_flush s)))]\<rparr>)"
proof -
  from assms have b: "fBucket fl \<noteq> []" and sz: "fBatchSize fl \<le> MaxInt"
    and c: "load (fRegion fl) = Inr client" and cap: "sint (fBatchSize fl) \<le> int maxCap"
    and l: "listing_loop (normalized_prefix (fPrefix fl)) (fBatchSize fl)
       (ListObjectVersionsPaginator client
          \<lparr>List_Bucket = fBucket fl, List_Prefix = normalized_prefix (fPrefix fl)\<rparr>)
       \<lparr>batch = [], numObjects = 0, dispatched = []\<rparr> = Inr s"
    by (simp_all add: listing_completes_def initial_state_def)
  have nb: "\<not> MaxInt < fBatchSize fl" using sz by (simp add: not_less)
  show ?thesis
    by (simp add: main_def Let_def b nb c make_returns[OF sz cap] l split: list.splits)
qed

lemma main_listing_fails:
  fixes fl :: "'w :: len flags"
  assumes "fBucket fl \<noteq> []" "fBatchSize fl \<le> MaxInt" "load (fRegion fl) = Inr client"
    and "sint (fBatchSize fl) \<le> int maxCap"
    and "listing_loop (normalized_prefix (fPrefix fl)) (fBatchSize fl)
           (ListObjectVersionsPaginator client
              \<lparr>List_Bucket = fBucket fl, List_Prefix = normalized_prefix (fPrefix fl)\<rparr>)
           initial_state = Inl (f, s)"
  shows "main maxCap race arrival load fl =
           Inl (first_exit race f
                  (aborts (map (deleteObjectVersions client (fBucket fl)) (dispatched s)
                             :: 'w worker_run list)))"
proof -
  have nb: "\<not> MaxInt < fBatchSize fl" using assms(2) by (simp add: not_less)
  from assms(5) have l: "listing_loop (normalized_prefix (fPrefix fl)) (fBatchSize fl)
       (ListObjectVersionsPaginator client
          \<lparr>List_Bucket = fBucket fl, List_Prefix = normalized_prefix (fPrefix fl)\<rparr>)
       \<lparr>batch = [], numObjects = 0, dispatched = []\<rparr> = Inl (f, s)"
    by (simp add: initial_state_def)
  show ?thesis
    by (simp add: main_def Let_def assms(1,3) nb make_returns[OF assms(2,4)] l)
qed

lemma main_completed:
  fixes fl :: "'w :: len flags"
  assumes "main maxCap race arrival load fl = Inr fin"
  shows "\<exists>client s.
           listing_completes maxCap load fl client s \<and>
           final_state fin = final_flush s \<and>
           aborts (map (deleteObjectVersions client (fBucket fl)) (dispatched (final_flush s))
                          :: 'w worker_run list) = [] \<and>
           final_totals fin =
             aggregator (arrival (concat (map sent
               (map (deleteObjectVersions client (fBucket fl)) (dispatched (final_flush s))
                          :: 'w worker_run list)))) \<and>
           stdout fin = progress (final_totals fin) @
             [''total number of objects: '' @ fmt_d (sint (numObjects (final_flush s)))]"
  using assms
  by (auto simp: main_def Let_def make_objectVersions_def listing_completes_def initial_state_def
      split: if_splits sum.splits list.splits prod.splits)

lemma exit_not_illegal:
  assumes "f \<noteq> IllegalBatchSize"
    and "\<forall>g\<in>set gs. g \<noteq> IllegalBatchSize"
  shows "first_exit race f gs \<noteq> IllegalBatchSize"
  using first_exit_mem[of race f gs] assms by auto

lemma main_illegal_iff:
  fixes fl :: "'w :: len flags"
  shows "main maxCap race arrival load fl = Inl IllegalBatchSize \<longleftrightarrow>
           fBucket fl \<noteq> [] \<and> MaxInt < fBatchSize fl"
proof (cases "fBucket fl = [] \<or> MaxInt < fBatchSize fl")
  case True
  then show ?thesis by (auto simp: main_def Let_def)
next
  case False
  then have b: "fBucket fl \<noteq> []" and sz: "fBatchSize fl \<le> MaxInt" by auto
  have workers: "\<forall>g\<in>set (aborts (map (deleteObjectVersions client (fBucket fl)) ds
                          :: 'w worker_run list)). g \<noteq> IllegalBatchSize" for client ds
    by (auto dest: aborts_kind)
  have "main maxCap race arrival load fl \<noteq> Inl IllegalBatchSize"
  proof (cases "load (fRegion fl)")
    case (Inl err)
    then show ?thesis using False by (simp add: main_def Let_def)
  next
    case (Inr client)
    let ?outs = "ListObjectVersionsPaginator client
              \<lparr>List_Bucket = fBucket fl, List_Prefix = normalized_prefix (fPrefix fl)\<rparr>"
    show ?thesis
    proof (cases "sint (fBatchSize fl) \<le> int maxCap")
      case False
      then show ?thesis
        using \<open>\<not> (fBucket fl = [] \<or> MaxInt < fBatchSize fl)\<close> Inr
        by (simp add: main_def Let_def make_objectVersions_def)
    next
      case cap: True
      show ?thesis
      proof (cases "listing_loop (normalized_prefix (fPrefix fl)) (fBatchSize fl) ?outs initial_state")
        case (Inl a)
        obtain f s where a: "a = (f, s)" by (cases a)
        from listing_loop_fatal_kind[OF Inl[unfolded a]] have "f \<noteq> IllegalBatchSize" by auto
        then show ?thesis
          unfolding main_listing_fails[where load = load and fl = fl, OF b sz Inr cap Inl[unfolded a]]
          using exit_not_illegal[OF _ workers] by simp
      next
        case s: (Inr s)
        have lc: "listing_completes maxCap load fl client s"
          using b sz Inr cap s by (simp add: listing_completes_def)
        show ?thesis
        proof (cases "aborts (map (deleteObjectVersions client (fBucket fl))
                        (dispatched (final_flush s)) :: 'w worker_run list)")
          case Nil
          then show ?thesis unfolding main_after_listing[OF lc] by simp
        next
          case (Cons g gs)
          have "\<forall>h\<in>set (g # gs). h \<noteq> IllegalBatchSize" using workers[of client "dispatched (final_flush s)"] Cons by simp
          then have "first_exit race g gs \<noteq> IllegalBatchSize"
            by (intro exit_not_illegal) auto
          then show ?thesis unfolding main_after_listing[OF lc] Cons by simp
        qed
      qed
    qed
  qed
  then show ?thesis using False by simp
qed

lemma fmt_d_0: "fmt_d 0 = ''0''"
  by (simp add: fmt_d_def digit_char_def)

section \<open>Runs of \<open>main\<close>\<close>

lemma first_exit_single: "first_exit race f [] = f"
  by (simp add: first_exit_def)

lemma completed_run_listing:
  fixes fl :: "'w :: len flags"
  assumes run: "main maxCap race arrival load fl = Inr fin"
    and client: "load (fRegion fl) = Inr client"
  shows "\<exists>pages.
           ListObjectVersionsPaginator client
             \<lparr>List_Bucket = fBucket fl, List_Prefix = normalized_prefix (fPrefix fl)\<rparr> =
             map Inr pages \<and>
           (\<forall>e\<in>set (listing_order pages). in_scope (normalized_prefix (fPrefix fl)) (fst e)) \<and>
           concat (dispatched (final_state fin)) = map entry_of (listing_order pages) \<and>
           numObjects (final_state fin) = of_nat (length (listing_order pages))"
proof -
  let ?prefix = "normalized_prefix (fPrefix fl)"
  let ?outs = "ListObjectVersionsPaginator client
             \<lparr>List_Bucket = fBucket fl, List_Prefix = ?prefix\<rparr>"
  from main_completed[OF run] client
  obtain s where loop: "listing_loop ?prefix (fBatchSize fl) ?outs initial_state = Inr s"
    and fin: "final_state fin = final_flush s"
    by (auto simp: listing_completes_def)
  from listing_loop_completes[OF loop] obtain pages where pages: "?outs = map Inr pages"
    and scope: "\<forall>e\<in>set (listing_order pages). in_scope ?prefix (fst e)"
    by blast
  from range_accumulates[OF scope, of "fBatchSize fl" initial_state] loop
  have cat: "concat (dispatched s) @ batch s = map entry_of (listing_order pages)"
    and cnt: "numObjects s = of_nat (length (listing_order pages))"
    by (auto simp: pages listing_loop_pages initial_state_def)
  have "concat (dispatched (final_flush s)) = map entry_of (listing_order pages)"
    using cat by (auto simp: final_flush_def)
  moreover have "numObjects (final_flush s) = of_nat (length (listing_order pages))"
    using cnt by (simp add: final_flush_def)
  ultimately show ?thesis using pages scope fin by (intro exI[of _ pages]) simp
qed

lemma listing_stops_at_violation:
  assumes out: "\<not> in_scope prefix key"
    and position: "listing_order pages = before @ (key, versionId) # after"
    and earlier: "\<forall>e\<in>set before. in_scope prefix (fst e)"
  shows "\<exists>s. listing_loop prefix C (map Inr pages @ rest) initial_state = Inl (OutOfPrefix key, s)"
proof -
  from range_accumulates[OF earlier, of C initial_state]
  obtain s where s: "range_deleteVersion prefix C before initial_state = Inr s" by blast
  have "listing_loop prefix C (map Inr pages @ rest) initial_state = Inl (OutOfPrefix key, s)"
    using range_stops_at_violation[OF out s, of versionId after] position
    by (simp add: listing_loop_append listing_loop_pages)
  then show ?thesis by blast
qed

lemma main_scope_violation:
  fixes fl :: "'w :: len flags"
  assumes reach: "reaches_listing maxCap load fl client"
    and outs: "ListObjectVersionsPaginator client
                 \<lparr>List_Bucket = fBucket fl, List_Prefix = normalized_prefix (fPrefix fl)\<rparr> =
               map Inr pages @ rest"
    and out: "\<not> in_scope (normalized_prefix (fPrefix fl)) key"
    and position: "listing_order pages = before @ (key, versionId) # after"
    and earlier: "\<forall>e\<in>set before. in_scope (normalized_prefix (fPrefix fl)) (fst e)"
  shows "(\<exists>f. main maxCap race arrival load fl = Inl f \<and>
              (f = OutOfPrefix key \<or> (\<exists>err. f = DeleteFailed err))) \<and>
         ((\<forall>params. \<exists>result. DeleteObjects client params = Inr result) \<longrightarrow>
            main maxCap race arrival load fl = Inl (OutOfPrefix key))"
proof -
  let ?prefix = "normalized_prefix (fPrefix fl)"
  from reach have b: "fBucket fl \<noteq> []" and sz: "fBatchSize fl \<le> MaxInt"
    and c: "load (fRegion fl) = Inr client" and cap: "sint (fBatchSize fl) \<le> int maxCap"
    by (simp_all add: reaches_listing_def)
  from listing_stops_at_violation[OF out position earlier, of "fBatchSize fl" rest]
  obtain s where "listing_loop ?prefix (fBatchSize fl) (map Inr pages @ rest) initial_state =
      Inl (OutOfPrefix key, s)" by blast
  then have l: "listing_loop ?prefix (fBatchSize fl)
      (ListObjectVersionsPaginator client \<lparr>List_Bucket = fBucket fl, List_Prefix = ?prefix\<rparr>)
      initial_state = Inl (OutOfPrefix key, s)"
    by (simp only: outs)
  let ?fs = "aborts (map (deleteObjectVersions client (fBucket fl)) (dispatched s)
               :: 'w worker_run list)"
  have m: "main maxCap race arrival load fl = Inl (first_exit race (OutOfPrefix key) ?fs)"
    by (rule main_listing_fails[where load = load and fl = fl, OF b sz c cap l])
  have "first_exit race (OutOfPrefix key) ?fs \<in> set (OutOfPrefix key # ?fs)"
    by (rule first_exit_mem)
  then have k: "first_exit race (OutOfPrefix key) ?fs = OutOfPrefix key \<or>
      (\<exists>err. first_exit race (OutOfPrefix key) ?fs = DeleteFailed err)"
    by (auto dest: aborts_kind)
  have "(\<forall>params. \<exists>result. DeleteObjects client params = Inr result) \<longrightarrow>
            main maxCap race arrival load fl = Inl (OutOfPrefix key)"
  proof
    assume "\<forall>params. \<exists>result. DeleteObjects client params = Inr result"
    then have "?fs = []" by (intro aborts_none) blast
    then show "main maxCap race arrival load fl = Inl (OutOfPrefix key)"
      unfolding m by (simp add: first_exit_single)
  qed
  with m k show ?thesis by auto
qed

lemma main_lists_all:
  fixes fl :: "'w :: len flags"
  assumes reach: "reaches_listing maxCap load fl client"
    and outs: "ListObjectVersionsPaginator client
                 \<lparr>List_Bucket = fBucket fl, List_Prefix = normalized_prefix (fPrefix fl)\<rparr> =
               map Inr pages"
    and scope: "\<forall>e\<in>set (listing_order pages). in_scope (normalized_prefix (fPrefix fl)) (fst e)"
  shows "\<exists>s. listing_completes maxCap load fl client s \<and>
           concat (dispatched s) @ batch s = map entry_of (listing_order pages) \<and>
           concat (dispatched (final_flush s)) = map entry_of (listing_order pages) \<and>
           numObjects s = of_nat (length (listing_order pages))"
proof -
  let ?prefix = "normalized_prefix (fPrefix fl)"
  from range_accumulates[OF scope, of "fBatchSize fl" initial_state]
  obtain s where s: "range_deleteVersion ?prefix (fBatchSize fl) (listing_order pages) initial_state = Inr s"
    and cat: "concat (dispatched s) @ batch s = map entry_of (listing_order pages)"
    and cnt: "numObjects s = of_nat (length (listing_order pages))"
    by (auto simp: initial_state_def)
  have lc: "listing_completes maxCap load fl client s"
    using reach s by (simp add: listing_completes_def reaches_listing_def outs listing_loop_pages)
  have "concat (dispatched (final_flush s)) = map entry_of (listing_order pages)"
    using cat by (auto simp: final_flush_def)
  with lc cat cnt show ?thesis by blast
qed

lemma zero_batch_listing:
  fixes fl :: "'w :: len flags"
  assumes zero: "fBatchSize fl = 0" and bucket: "fBucket fl \<noteq> []"
    and client: "load (fRegion fl) = Inr client"
    and outs: "ListObjectVersionsPaginator client
                 \<lparr>List_Bucket = fBucket fl, List_Prefix = normalized_prefix (fPrefix fl)\<rparr> =
               map Inr pages"
    and scope: "\<forall>e\<in>set (listing_order pages). in_scope (normalized_prefix (fPrefix fl)) (fst e)"
  shows "\<exists>s. listing_completes maxCap load fl client s \<and> dispatched s = [] \<and>
           batch s = map entry_of (listing_order pages) \<and>
           final_flush s = s\<lparr>dispatched :=
             (if listing_order pages = [] then [] else [map entry_of (listing_order pages)])\<rparr>"
proof -
  let ?prefix = "normalized_prefix (fPrefix fl)"
  have reach: "reaches_listing maxCap load fl client"
    using zero bucket client by (simp add: reaches_listing_def)
  from main_lists_all[OF reach outs scope]
  obtain s where lc: "listing_completes maxCap load fl client s" by blast
  then have r: "range_deleteVersion ?prefix (0 :: 'w word) (listing_order pages) initial_state = Inr s"
    by (simp add: listing_completes_def outs listing_loop_pages zero)
  have z: "sint (0 :: 'w word) \<le> 0" by simp
  from range_never_seals[OF z scope r]
  have d: "dispatched s = []" and b: "batch s = map entry_of (listing_order pages)"
    by (simp_all add: initial_state_def)
  have "final_flush s = s\<lparr>dispatched :=
             (if listing_order pages = [] then [] else [map entry_of (listing_order pages)])\<rparr>"
    using d b by (simp add: final_flush_def)
  with lc d b show ?thesis by blast
qed

lemma zero_batch_never_seals:
  assumes scope: "\<forall>e\<in>set es. in_scope prefix (fst e)"
  shows "\<exists>t. range_deleteVersion prefix (0 :: 'w :: len word) (take n es) initial_state = Inr t \<and>
           dispatched t = []"
proof -
  have scope': "\<forall>e\<in>set (take n es). in_scope prefix (fst e)"
    using scope by (auto dest: in_set_takeD)
  from range_accumulates[OF scope', of "0 :: 'w word" initial_state]
  obtain t where t: "range_deleteVersion prefix (0 :: 'w word) (take n es) initial_state = Inr t"
    by blast
  have z: "sint (0 :: 'w word) \<le> 0" by simp
  from range_never_seals[OF z scope' t] have "dispatched t = []" by (simp add: initial_state_def)
  with t show ?thesis by blast
qed

lemma single_worker_run:
  fixes fl :: "'w :: len flags"
  assumes lc: "listing_completes maxCap load fl client s"
    and one: "dispatched (final_flush s) = [b]"
  shows "(\<forall>result. DeleteObjects client (deleteParams (fBucket fl) b) = Inr result \<longrightarrow>
            (\<exists>fin. main maxCap race arrival load fl = Inr fin \<and> final_state fin = final_flush s)) \<and>
         (\<forall>err. DeleteObjects client (deleteParams (fBucket fl) b) = Inl err \<longrightarrow>
            main maxCap race arrival load fl = Inl (DeleteFailed err))"
  unfolding main_after_listing[OF lc] one
  by (auto simp: deleteObjectVersions_def Let_def first_exit_single)

lemma no_worker_run:
  fixes fl :: "'w :: len flags"
  assumes lc: "listing_completes maxCap load fl client s"
    and none: "dispatched (final_flush s) = []"
  shows "\<exists>fin. main maxCap race arrival load fl = Inr fin \<and> final_state fin = final_flush s"
  unfolding main_after_listing[OF lc] none by simp

lemma main_make_panics:
  fixes fl :: "'w :: len flags"
  assumes "fBucket fl \<noteq> []" "fBatchSize fl \<le> MaxInt" "load (fRegion fl) = Inr client"
    and "int maxCap < sint (fBatchSize fl)"
  shows "main maxCap race arrival load fl = Inl MakeSlicePanic"
proof -
  have nb: "\<not> MaxInt < fBatchSize fl" using assms(2) by (simp add: not_less)
  show ?thesis using assms(1,3,4) nb by (simp add: main_def Let_def make_objectVersions_def)
qed

section \<open>Trimming slashes\<close>

lemma Trim_slash:
  "Trim s ''/'' = rev (dropWhile (\<lambda>c. c = CHR ''/'') (rev (dropWhile (\<lambda>c. c = CHR ''/'') s)))"
  by (simp add: Trim_def)

lemma Trim_slashes:
  assumes lead: "set lead \<subseteq> {CHR ''/''}" and trail: "set trail \<subseteq> {CHR ''/''}"
    and core: "core = [] \<or> (hd core \<noteq> CHR ''/'' \<and> last core \<noteq> CHR ''/'')"
  shows "Trim (lead @ core @ trail) ''/'' = core"
proof (cases "core = []")
  case True
  have "\<forall>c\<in>set (lead @ [] @ trail). c = CHR ''/''" using lead trail by auto
  then have e: "dropWhile (\<lambda>c. c = CHR ''/'') (lead @ [] @ trail) = []"
    by (simp only: dropWhile_eq_Nil_conv)
  show ?thesis unfolding True Trim_slash e by simp
next
  case False
  with core have h: "hd core \<noteq> CHR ''/''" and l: "last core \<noteq> CHR ''/''" by auto
  from False obtain c cs where c: "core = c # cs" by (cases core) auto
  from False obtain ds d where d: "core = ds @ [d]" by (cases core rule: rev_cases) auto
  have le: "\<And>x. x \<in> set lead \<Longrightarrow> x = CHR ''/''" using lead by auto
  have tr: "\<And>x. x \<in> set (rev trail) \<Longrightarrow> x = CHR ''/''" using trail by auto
  have "dropWhile (\<lambda>c. c = CHR ''/'') (lead @ core @ trail) =
        dropWhile (\<lambda>c. c = CHR ''/'') (core @ trail)"
    using le by (rule dropWhile_append2)
  also have "\<dots> = core @ trail" using h c by simp
  finally have 1: "dropWhile (\<lambda>c. c = CHR ''/'') (lead @ core @ trail) = core @ trail" .
  have "dropWhile (\<lambda>c. c = CHR ''/'') (rev trail @ rev core) =
        dropWhile (\<lambda>c. c = CHR ''/'') (rev core)"
    using tr by (rule dropWhile_append2)
  also have "\<dots> = rev core" using l d by simp
  finally have 2: "dropWhile (\<lambda>c. c = CHR ''/'') (rev trail @ rev core) = rev core" .
  show ?thesis unfolding Trim_slash 1 rev_append 2 by simp
qed

lemma Trim_decomposition:
  "\<exists>lead core trail. p = lead @ core @ trail \<and>
     set lead \<subseteq> {CHR ''/''} \<and> set trail \<subseteq> {CHR ''/''} \<and>
     (core = [] \<or> (hd core \<noteq> CHR ''/'' \<and> last core \<noteq> CHR ''/''))"
proof -
  define P where "P = (\<lambda>c. c = CHR ''/'')"
  define lead where "lead = takeWhile P p"
  define rest where "rest = dropWhile P p"
  define trail where "trail = rev (takeWhile P (rev rest))"
  define core where "core = rev (dropWhile P (rev rest))"
  have "rev (rev rest) = rev (takeWhile P (rev rest) @ dropWhile P (rev rest))"
    by (simp only: takeWhile_dropWhile_id)
  then have rest: "rest = core @ trail"
    by (simp only: rev_rev_ident rev_append core_def trail_def)
  have "p = lead @ rest" by (simp add: lead_def rest_def)
  then have p: "p = lead @ core @ trail" by (simp only: rest)
  have lead: "set lead \<subseteq> {CHR ''/''}"
    unfolding lead_def P_def by (auto dest: set_takeWhileD)
  have trail: "set trail \<subseteq> {CHR ''/''}"
    unfolding trail_def P_def by (auto dest: set_takeWhileD)
  have core: "core = [] \<or> (hd core \<noteq> CHR ''/'' \<and> last core \<noteq> CHR ''/'')"
  proof (cases "core = []")
    case True
    then show ?thesis by simp
  next
    case False
    then have ne: "dropWhile P (rev rest) \<noteq> []" by (simp add: core_def)
    then have "\<not> P (hd (dropWhile P (rev rest)))" by (rule hd_dropWhile)
    then have l: "last core \<noteq> CHR ''/''" using ne by (simp add: core_def last_rev P_def)
    from False have "rest \<noteq> []" by (simp add: rest)
    then have "dropWhile P p \<noteq> []" unfolding rest_def .
    then have "\<not> P (hd (dropWhile P p))" by (rule hd_dropWhile)
    then have "hd rest \<noteq> CHR ''/''" by (simp add: rest_def P_def)
    moreover have "hd rest = hd core" using False by (simp add: rest)
    ultimately have "hd core \<noteq> CHR ''/''" by simp
    with l show ?thesis by simp
  qed
  from p lead trail core show ?thesis by blast
qed

lemma normalized_slashes:
  assumes "set p \<subseteq> {CHR ''/''}"
  shows "normalized_prefix p = []"
proof -
  have "Trim ([] @ [] @ p) ''/'' = []" using assms by (intro Trim_slashes) auto
  then show ?thesis by (simp add: normalized_prefix_def)
qed

section \<open>The claims\<close>

text \<open>
  C1. For a listing that yields \<open>N\<close> entries, all within the prefix, and a batch size
  \<open>C\<close> that \<open>main\<close> accepts and that is positive, the listing loop followed by the final
  flush emits exactly \<open>\<lceil>N / C\<rceil>\<close> batches (none when \<open>N = 0\<close>); every batch but the last
  has exactly \<open>C\<close> entries, the last has \<open>N mod C\<close> entries, or \<open>C\<close> when \<open>N\<close> is a positive
  multiple of \<open>C\<close>; no emitted batch is empty. The batch size 0, which \<open>main\<close> accepts
  as well, is excluded: there the run emits one batch of all \<open>N\<close> entries. (With a batch
  size that \<open>make\<close> cannot allocate the run ends at line 96 and emits nothing.)
\<close>

theorem accumulator_batch_shape:
  fixes C :: "'w :: len word"
  assumes accepted: "C \<le> MaxInt" and positive: "C \<noteq> 0"
    and scope: "\<forall>e\<in>set (listing_order pages). in_scope prefix (fst e)"
  shows "\<exists>s. listing_loop prefix C (map Inr pages) initial_state = Inr s \<and>
           (let emitted = dispatched (final_flush s);
                N = length (listing_order pages);
                c = unat C
            in int (length emitted) = \<lceil>real N / real c\<rceil> \<and>
               (N = 0 \<longrightarrow> emitted = []) \<and>
               (\<forall>i. Suc i < length emitted \<longrightarrow> length (emitted ! i) = c) \<and>
               (0 < N \<longrightarrow> length (last emitted) = (if N mod c = 0 then c else N mod c)) \<and>
               [] \<notin> set emitted)"
proof -
  let ?es = "listing_order pages"
  let ?c = "unat C"
  let ?N = "length ?es"
  have c: "0 < ?c" using positive by (simp add: unat_gt_0)
  have cap: "nat (sint C) = ?c" by (simp only: sint_accepted[OF accepted] nat_int)
  have pos: "0 < sint C" using sint_accepted[OF accepted] c by linarith
  from accumulator_shape[OF pos scope]
  obtain s where run: "range_deleteVersion prefix C ?es initial_state = Inr s"
    and full: "\<forall>b\<in>set (dispatched s). length b = ?c"
    and k: "length (dispatched s) = ?N div ?c"
    and r: "length (batch s) = ?N mod ?c"
    unfolding cap by blast
  let ?out = "dispatched (final_flush s)"
  have ne: "[] \<notin> set (dispatched s)" using full c by auto
  have count: "int (length ?out) = \<lceil>real ?N / real ?c\<rceil>"
    unfolding ceiling_div_nat[OF c] using k r by (simp add: final_flush_def)
  have zero: "?N = 0 \<longrightarrow> ?out = []"
    using k r by (auto simp: final_flush_def)
  have inner: "\<forall>i. Suc i < length ?out \<longrightarrow> length (?out ! i) = ?c"
    using full by (auto simp: final_flush_def nth_append)
  have last: "0 < ?N \<longrightarrow> length (last ?out) = (if ?N mod ?c = 0 then ?c else ?N mod ?c)"
  proof
    assume N: "0 < ?N"
    show "length (last ?out) = (if ?N mod ?c = 0 then ?c else ?N mod ?c)"
    proof (cases "?N mod ?c = 0")
      case True
      then have b: "batch s = []" using r by simp
      have "?N div ?c \<noteq> 0" using True N c by (metis div_mult_mod_eq add.right_neutral mult_zero_left less_not_refl)
      then have "dispatched s \<noteq> []" using k by auto
      then have "last (dispatched s) \<in> set (dispatched s)" by simp
      then show ?thesis using full b True by (simp add: final_flush_def)
    next
      case False
      then show ?thesis using r by (simp add: final_flush_def)
    qed
  qed
  have nonempty: "[] \<notin> set ?out" using ne by (auto simp: final_flush_def)
  show ?thesis
    unfolding listing_loop_pages Let_def
    using run count zero inner last nonempty by blast
qed

theorem accumulator_batch_shape_witness:
  "(2 :: 64 word) \<le> MaxInt \<and> (2 :: 64 word) \<noteq> 0 \<and>
   list_all (\<lambda>e. in_scope ''logs/'' (fst e)) (listing_order example_pages) \<and>
   (\<exists>s. listing_loop ''logs/'' (2 :: 64 word) (map Inr example_pages) initial_state = Inr s \<and>
      (let emitted = dispatched (final_flush s);
           N = length (listing_order example_pages);
           c = unat (2 :: 64 word)
       in int (length emitted) = \<lceil>real N / real c\<rceil> \<and>
          (N = 0 \<longrightarrow> emitted = []) \<and>
          (\<forall>i. Suc i < length emitted \<longrightarrow> length (emitted ! i) = c) \<and>
          (0 < N \<longrightarrow> length (last emitted) = (if N mod c = 0 then c else N mod c)) \<and>
          [] \<notin> set emitted))"
proof -
  have h1: "(2 :: 64 word) \<le> MaxInt" by (simp add: MaxInt_def mask_eq_exp_minus_1)
  have h2: "(2 :: 64 word) \<noteq> 0" by simp
  have h3: "\<forall>e\<in>set (listing_order example_pages). in_scope ''logs/'' (fst e)"
    by (simp add: example_pages_def listing_order_def in_scope_def HasPrefix_def)
  from accumulator_batch_shape[OF h1 h2 h3] h1 h2 h3 show ?thesis
    unfolding list_all_iff by (intro conjI)
qed

theorem accumulator_batch_shape_counterexample:
  "(0 :: 64 word) \<le> MaxInt \<and>
   \<not> isl (main 1000 0 rev example_load (example_flags\<lparr>fBatchSize := 0\<rparr>)) \<and>
   dispatched (final_state (projr (main 1000 0 rev example_load (example_flags\<lparr>fBatchSize := 0\<rparr>)))) =
     [map entry_of (listing_order example_pages)] \<and>
   length (listing_order example_pages) = 3 \<and>
   length (last (dispatched (final_state
     (projr (main 1000 0 rev example_load (example_flags\<lparr>fBatchSize := 0\<rparr>)))))) = 3 \<and>
   \<not> 3 \<le> unat (0 :: 64 word) \<and>
   int (length (dispatched (final_state
     (projr (main 1000 0 rev example_load (example_flags\<lparr>fBatchSize := 0\<rparr>)))))) \<noteq>
     \<lceil>real 3 / real (unat (0 :: 64 word))\<rceil>"
proof -
  let ?run = "main 1000 0 rev example_load (example_flags\<lparr>fBatchSize := 0\<rparr>)"
  have a: "(0 :: 64 word) \<le> MaxInt" by simp
  have b: "\<not> isl ?run" by code_simp
  have c: "dispatched (final_state (projr ?run)) = [map entry_of (listing_order example_pages)]"
    by code_simp
  have d: "length (listing_order example_pages) = 3"
    by (simp add: listing_order_def example_pages_def)
  have e: "length (last (dispatched (final_state (projr ?run)))) = 3"
    unfolding c by (simp add: d)
  have f: "\<not> 3 \<le> unat (0 :: 64 word)" by simp
  have g: "int (length (dispatched (final_state (projr ?run)))) \<noteq>
     \<lceil>real 3 / real (unat (0 :: 64 word))\<rceil>"
    unfolding c by simp
  from a b c d e f g show ?thesis by (intro conjI)
qed

text \<open>
  C2. In every run that reaches the final print, whatever the order in which the
  results arrive, the Aggregator's \<open>numProcessed\<close> (the sum of \<open>BatchSize\<close> over the
  results it received) equals \<open>numObjects\<close>, which counts the listed entries, one
  increment per entry fed to \<open>deleteVersion\<close>.
\<close>

theorem processed_total_equals_observed:
  fixes fl :: "'w :: len flags"
  assumes order: "\<forall>rs :: 'w deleteBatchResult list. mset (arrival rs) = mset rs"
    and run: "main maxCap race arrival load fl = Inr fin"
    and client: "load (fRegion fl) = Inr client"
    and pages: "ListObjectVersionsPaginator client
                  \<lparr>List_Bucket = fBucket fl, List_Prefix = normalized_prefix (fPrefix fl)\<rparr> =
                map Inr pages"
  shows "numProcessed (final_totals fin) = numObjects (final_state fin) \<and>
         numObjects (final_state fin) = of_nat (length (listing_order pages)) \<and>
         numProcessed (final_totals fin) =
           sum_list (map BatchSize
             (arrival (concat (map sent
                (map (deleteObjectVersions client (fBucket fl)) (dispatched (final_state fin))
                   :: 'w worker_run list)))))"
proof -
  let ?prefix = "normalized_prefix (fPrefix fl)"
  let ?es = "listing_order pages"
  from main_completed[OF run] client pages
  obtain s where
    loop: "listing_loop ?prefix (fBatchSize fl) (map Inr pages) initial_state = Inr s" and
    fin: "final_state fin = final_flush s" and
    ok: "aborts (map (deleteObjectVersions client (fBucket fl)) (dispatched (final_flush s))
                          :: 'w worker_run list) = []" and
    tot: "final_totals fin =
             aggregator (arrival (concat (map sent
               (map (deleteObjectVersions client (fBucket fl)) (dispatched (final_flush s))
                          :: 'w worker_run list))))"
    by (auto simp: listing_completes_def)
  let ?ds = "dispatched (final_flush s)"
  let ?sent = "concat (map sent (map (deleteObjectVersions client (fBucket fl)) ?ds :: 'w worker_run list))"
  from listing_loop_completes[OF loop] have scope: "\<forall>e\<in>set ?es. in_scope ?prefix (fst e)"
    by (auto dest: map_injective simp: inj_on_def)
  from range_accumulates[OF scope, of "fBatchSize fl" initial_state] loop
  have cat: "concat (dispatched s) @ batch s = map entry_of ?es"
    and cnt: "numObjects s = of_nat (length ?es)"
    by (auto simp: listing_loop_pages initial_state_def)
  have cat': "concat ?ds = map entry_of ?es" using cat by (auto simp: final_flush_def)
  have cnt': "numObjects (final_flush s) = of_nat (length ?es)" using cnt by (simp add: final_flush_def)
  have "numProcessed (final_totals fin) = sum_list (map BatchSize (arrival ?sent))"
    using tot by (simp add: aggregator_totals)
  also have "\<dots> = sum_list (map BatchSize ?sent)"
    by (rule sum_list_permuted) (use order in simp)
  also have "\<dots> = sum_list (map (\<lambda>b. of_nat (length b)) ?ds)"
    using workers_all_report[OF ok] by (simp add: comp_def)
  also have "\<dots> = of_nat (length (concat ?ds))" by (rule sum_list_word_lengths)
  also have "\<dots> = of_nat (length ?es)" using cat' by simp
  finally have "numProcessed (final_totals fin) = of_nat (length ?es)" .
  then show ?thesis using cnt' fin tot by (simp add: aggregator_totals)
qed

theorem processed_total_equals_observed_witness:
  "(\<forall>rs :: 64 deleteBatchResult list. mset (rev rs) = mset rs) \<and>
   example_load (fRegion example_flags) = Inr example_client \<and>
   ListObjectVersionsPaginator example_client
     \<lparr>List_Bucket = fBucket example_flags,
      List_Prefix = normalized_prefix (fPrefix example_flags)\<rparr> = map Inr example_pages \<and>
   (\<exists>fin. main 1000 0 rev example_load example_flags = Inr fin \<and>
      numProcessed (final_totals fin) = numObjects (final_state fin) \<and>
      numObjects (final_state fin) = of_nat (length (listing_order example_pages)) \<and>
      numProcessed (final_totals fin) =
        sum_list (map BatchSize
          (rev (concat (map sent
             (map (deleteObjectVersions example_client (fBucket example_flags))
                (dispatched (final_state fin)) :: 64 worker_run list))))))"
proof -
  have o: "\<forall>rs :: 64 deleteBatchResult list. mset (rev rs) = mset rs" by simp
  have c: "example_load (fRegion example_flags) = Inr example_client"
    by (simp add: example_load_def)
  have p: "ListObjectVersionsPaginator example_client
     \<lparr>List_Bucket = fBucket example_flags,
      List_Prefix = normalized_prefix (fPrefix example_flags)\<rparr> = map Inr example_pages"
    by (simp add: example_client_def example_flags_def normalized_prefix_def Trim_def)
  have "\<not> isl (main 1000 0 rev example_load example_flags)" by code_simp
  then obtain fin where r: "main 1000 0 rev example_load example_flags = Inr fin"
    by (cases "main 1000 0 rev example_load example_flags") auto
  from processed_total_equals_observed[OF o r c p] o c p r show ?thesis by blast
qed

text \<open>
  C3. For a listing whose entries are all within the prefix, the concatenation of the
  emitted batches, in the order of their emission, is the sequence of the listed entries
  in listing order (per page: versions first, then delete markers); so the sizes of the
  batches add up to \<open>N\<close>, and when the listing names no entry twice, no entry is in two
  batches.
\<close>

theorem batches_concat_listing:
  fixes C :: "'w :: len word"
  assumes scope: "\<forall>e\<in>set (listing_order pages). in_scope prefix (fst e)"
  shows "\<exists>s. listing_loop prefix C (map Inr pages) initial_state = Inr s \<and>
           (let emitted = dispatched (final_flush s) in
              concat emitted = map entry_of (listing_order pages) \<and>
              sum_list (map length emitted) = length (listing_order pages) \<and>
              (distinct (listing_order pages) \<longrightarrow>
                 (\<forall>i j. i < j \<and> j < length emitted \<longrightarrow>
                    set (emitted ! i) \<inter> set (emitted ! j) = {})))"
proof -
  let ?es = "listing_order pages"
  from range_accumulates[OF scope, of C initial_state]
  obtain s where run: "range_deleteVersion prefix C ?es initial_state = Inr s"
    and cat: "concat (dispatched s) @ batch s = map entry_of ?es"
    by (auto simp: initial_state_def)
  let ?out = "dispatched (final_flush s)"
  have c: "concat ?out = map entry_of ?es"
    using cat by (auto simp: final_flush_def)
  have "length (concat ?out) = length ?es" using c by simp
  then have sz: "sum_list (map length ?out) = length ?es" by (simp add: length_concat)
  have inj: "inj entry_of" by (auto simp: inj_on_def entry_of_def prod_eq_iff)
  have dj: "distinct ?es \<longrightarrow>
      (\<forall>i j. i < j \<and> j < length ?out \<longrightarrow> set (?out ! i) \<inter> set (?out ! j) = {})"
  proof (intro impI allI)
    fix i j assume d: "distinct ?es" and ij: "i < j \<and> j < length ?out"
    have "inj_on entry_of (set ?es)" using inj by (rule inj_on_subset) simp
    then have "distinct (concat ?out)" using d c by (simp add: distinct_map)
    then show "set (?out ! i) \<inter> set (?out ! j) = {}"
      using ij by (intro distinct_concat_nth_disjoint) auto
  qed
  show ?thesis unfolding listing_loop_pages Let_def using run c sz dj by blast
qed

theorem batches_concat_listing_witness:
  "list_all (\<lambda>e. in_scope ''logs/'' (fst e)) (listing_order example_pages) \<and>
   distinct (listing_order example_pages) \<and>
   (\<exists>s. listing_loop ''logs/'' (2 :: 64 word) (map Inr example_pages) initial_state = Inr s \<and>
      (let emitted = dispatched (final_flush s) in
         concat emitted = map entry_of (listing_order example_pages) \<and>
         sum_list (map length emitted) = length (listing_order example_pages) \<and>
         (distinct (listing_order example_pages) \<longrightarrow>
            (\<forall>i j. i < j \<and> j < length emitted \<longrightarrow>
               set (emitted ! i) \<inter> set (emitted ! j) = {}))))"
proof -
  have h: "\<forall>e\<in>set (listing_order example_pages). in_scope ''logs/'' (fst e)"
    by (simp add: example_pages_def listing_order_def in_scope_def HasPrefix_def)
  have d: "distinct (listing_order example_pages)"
    by (simp add: example_pages_def listing_order_def)
  from batches_concat_listing[OF h, of "2 :: 64 word"] h d show ?thesis
    unfolding list_all_iff by (intro conjI)
qed

text \<open>
  C4. In every run that reaches the final print, the Aggregator's \<open>numErrors\<close> is the
  sum, over the dispatched delete requests, of the number of per-item errors the
  collaborator reported for the request: every worker reports as \<open>ErrorCount\<close> the length
  of the error list of its response, and the Aggregator adds every \<open>ErrorCount\<close> once.
\<close>

theorem error_total_is_sum_of_reported:
  fixes fl :: "'w :: len flags"
  assumes order: "\<forall>rs :: 'w deleteBatchResult list. mset (arrival rs) = mset rs"
    and run: "main maxCap race arrival load fl = Inr fin"
    and client: "load (fRegion fl) = Inr client"
  shows "numErrors (final_totals fin) =
           of_nat (\<Sum>b\<leftarrow>dispatched (final_state fin).
                     reported_errors client (deleteParams (fBucket fl) b)) \<and>
         numErrors (final_totals fin) =
           sum_list (map ErrorCount
             (arrival (concat (map sent
                (map (deleteObjectVersions client (fBucket fl)) (dispatched (final_state fin))
                   :: 'w worker_run list))))) \<and>
         (\<forall>b\<in>set (dispatched (final_state fin)).
            \<exists>result. DeleteObjects client (deleteParams (fBucket fl) b) = Inr result \<and>
              sent (deleteObjectVersions client (fBucket fl) b :: 'w worker_run) =
                [\<lparr>BatchSize = of_nat (length b), ErrorCount = of_nat (length (Errors result))\<rparr>])"
proof -
  from main_completed[OF run] client
  obtain s where
    fin: "final_state fin = final_flush s" and
    ok: "aborts (map (deleteObjectVersions client (fBucket fl)) (dispatched (final_flush s))
                          :: 'w worker_run list) = []" and
    tot: "final_totals fin =
             aggregator (arrival (concat (map sent
               (map (deleteObjectVersions client (fBucket fl)) (dispatched (final_flush s))
                          :: 'w worker_run list))))"
    by (auto simp: listing_completes_def)
  let ?ds = "dispatched (final_flush s)"
  let ?sent = "concat (map sent (map (deleteObjectVersions client (fBucket fl)) ?ds :: 'w worker_run list))"
  note rep = workers_all_report[OF ok]
  have a: "numErrors (final_totals fin) = sum_list (map ErrorCount (arrival ?sent))"
    using tot by (simp add: aggregator_totals)
  also have "\<dots> = sum_list (map ErrorCount ?sent)"
    by (rule sum_list_permuted) (use order in simp)
  also have "\<dots> = sum_list (map (\<lambda>b. of_nat (reported_errors client (deleteParams (fBucket fl) b))) ?ds)"
    using rep by (simp add: comp_def)
  also have "\<dots> = of_nat (\<Sum>b\<leftarrow>?ds. reported_errors client (deleteParams (fBucket fl) b))"
    by (rule sum_list_word_of_nat)
  finally have b: "numErrors (final_totals fin) =
     of_nat (\<Sum>b\<leftarrow>?ds. reported_errors client (deleteParams (fBucket fl) b))" .
  have c: "\<forall>b\<in>set ?ds.
            \<exists>result. DeleteObjects client (deleteParams (fBucket fl) b) = Inr result \<and>
              sent (deleteObjectVersions client (fBucket fl) b :: 'w worker_run) =
                [\<lparr>BatchSize = of_nat (length b), ErrorCount = of_nat (length (Errors result))\<rparr>]"
  proof
    fix b assume "b \<in> set ?ds"
    with rep obtain result where "DeleteObjects client (deleteParams (fBucket fl) b) = Inr result"
      by blast
    then show "\<exists>result. DeleteObjects client (deleteParams (fBucket fl) b) = Inr result \<and>
              sent (deleteObjectVersions client (fBucket fl) b :: 'w worker_run) =
                [\<lparr>BatchSize = of_nat (length b), ErrorCount = of_nat (length (Errors result))\<rparr>]"
      by (simp add: deleteObjectVersions_def Let_def)
  qed
  show ?thesis using a b c fin by simp
qed

theorem error_total_is_sum_of_reported_witness:
  "(\<forall>rs :: 64 deleteBatchResult list. mset (rev rs) = mset rs) \<and>
   example_load (fRegion example_flags) = Inr example_client \<and>
   (\<exists>fin. main 1000 0 rev example_load example_flags = Inr fin \<and>
      numErrors (final_totals fin) = 1 \<and>
      numErrors (final_totals fin) =
        of_nat (\<Sum>b\<leftarrow>dispatched (final_state fin).
                  reported_errors example_client (deleteParams (fBucket example_flags) b)))"
proof -
  have o: "\<forall>rs :: 64 deleteBatchResult list. mset (rev rs) = mset rs" by simp
  have c: "example_load (fRegion example_flags) = Inr example_client"
    by (simp add: example_load_def)
  have "\<not> isl (main 1000 0 rev example_load example_flags) \<and>
        numErrors (final_totals (projr (main 1000 0 rev example_load example_flags))) = 1" by code_simp
  then obtain fin where r: "main 1000 0 rev example_load example_flags = Inr fin"
     and e: "numErrors (final_totals fin) = 1"
    by (cases "main 1000 0 rev example_load example_flags") auto
  from error_total_is_sum_of_reported[OF o r c] o c r e show ?thesis by blast
qed

text \<open>
  C5. With a non-empty prefix, when the listing reaches an entry whose key does not start
  with the prefix, the loop ends in the fatal exit \<open>OutOfPrefix\<close> in the state reached
  before that entry: the entry is in no batch and is not counted, and nothing that the
  listing would yield after it (entries, pages, listing errors) is processed.
\<close>

theorem scope_violation_is_fatal:
  fixes C :: "'w :: len word"
  assumes nonempty: "prefix \<noteq> []"
    and outside: "\<not> HasPrefix key prefix"
    and position: "listing_order pages = before @ (key, versionId) # after"
    and earlier: "\<forall>e\<in>set before. HasPrefix (fst e) prefix"
  shows "\<exists>s. range_deleteVersion prefix C before initial_state = Inr s \<and>
           listing_loop prefix C (map Inr pages @ rest) initial_state = Inl (OutOfPrefix key, s) \<and>
           numObjects s = of_nat (length before) \<and>
           concat (dispatched s) @ batch s = map entry_of before \<and>
           entry_of (key, versionId) \<notin> set (concat (dispatched s) @ batch s) \<and>
           deleteVersion prefix C key versionId s = Inl (OutOfPrefix key, s)"
proof -
  have out: "\<not> in_scope prefix key" using nonempty outside by (simp add: in_scope_def)
  have "\<forall>e\<in>set before. in_scope prefix (fst e)" using earlier by (simp add: in_scope_def)
  from range_accumulates[OF this, of C initial_state]
  obtain s where s: "range_deleteVersion prefix C before initial_state = Inr s"
    "concat (dispatched s) @ batch s = map entry_of before"
    "numObjects s = of_nat (length before)"
    by (auto simp: initial_state_def)
  have stop: "listing_loop prefix C (map Inr pages @ rest) initial_state = Inl (OutOfPrefix key, s)"
    using range_stops_at_violation[OF out s(1), of versionId after] position
    by (simp add: listing_loop_append listing_loop_pages)
  have fresh: "entry_of (key, versionId) \<notin> set (map entry_of before)"
  proof (rule notI)
    assume "entry_of (key, versionId) \<in> set (map entry_of before)"
    then obtain e where "e \<in> set before" "entry_of e = entry_of (key, versionId)" by auto
    then have "fst e = key" by (simp add: entry_of_def)
    with \<open>e \<in> set before\<close> earlier outside show False by auto
  qed
  have absent: "entry_of (key, versionId) \<notin> set (concat (dispatched s) @ batch s)"
    unfolding s(2) by (rule fresh)
  show ?thesis using s stop absent deleteVersion_rejects[OF out] by blast
qed

theorem scope_violation_is_fatal_witness:
  "''a/b/'' \<noteq> [] \<and> \<not> HasPrefix ''c/d'' ''a/b/'' \<and>
   listing_order stray_pages = [(''a/b/x'', ''1'')] @ (''c/d'', ''1'') # [(''a/b/y'', ''1''), (''a/b/z'', ''2'')] \<and>
   list_all (\<lambda>e. HasPrefix (fst e) ''a/b/'') [(''a/b/x'', ''1'')] \<and>
   (\<exists>s. range_deleteVersion ''a/b/'' (2 :: 64 word) [(''a/b/x'', ''1'')] initial_state = Inr s \<and>
      listing_loop ''a/b/'' (2 :: 64 word) (map Inr stray_pages @ [Inl ''unreached''])
        initial_state = Inl (OutOfPrefix ''c/d'', s) \<and>
      numObjects s = of_nat (length [(''a/b/x'', ''1'')]) \<and>
      concat (dispatched s) @ batch s = map entry_of [(''a/b/x'', ''1'')] \<and>
      entry_of (''c/d'', ''1'') \<notin> set (concat (dispatched s) @ batch s) \<and>
      deleteVersion ''a/b/'' (2 :: 64 word) ''c/d'' ''1'' s = Inl (OutOfPrefix ''c/d'', s))"
proof -
  have h1: "''a/b/'' \<noteq> []" by simp
  have h2: "\<not> HasPrefix ''c/d'' ''a/b/''" by (simp add: HasPrefix_def)
  have h3: "listing_order stray_pages =
      [(''a/b/x'', ''1'')] @ (''c/d'', ''1'') # [(''a/b/y'', ''1''), (''a/b/z'', ''2'')]"
    by (simp add: stray_pages_def listing_order_def)
  have h4: "\<forall>e\<in>set [(''a/b/x'', ''1'')]. HasPrefix (fst e) ''a/b/''" by (simp add: HasPrefix_def)
  from scope_violation_is_fatal[OF h1 h2 h3 h4, of "2 :: 64 word" "[Inl ''unreached'']"] h1 h2 h3 h4
  show ?thesis unfolding list_all_iff by (intro conjI)
qed

text \<open>
  C6. A Delete Worker issues exactly one delete request; the request names the bucket
  and every (key, version id) pair of the batch, in order, with \<open>Quiet\<close> set. If the
  request itself fails, the worker sends nothing and exits fatally (there is no second
  request), and a run in which that batch was dispatched ends fatally. If the request
  completes, also with per-item failures, the worker does not exit and sends exactly
  one result, whose \<open>BatchSize\<close> is the number of entries of the batch and whose
  \<open>ErrorCount\<close> is the number of per-item failures reported.
\<close>

theorem worker_one_request_one_result:
  fixes client :: s3Client and fl :: "'w :: len flags"
  shows "(let params = deleteParams bucket b;
              w = deleteObjectVersions client bucket b :: 'w worker_run
          in issued w = [params] \<and>
             Bucket params = bucket \<and>
             map (\<lambda>i. (ObjectIdentifier_Key i, ObjectIdentifier_VersionId i))
               (Objects (Delete params)) = map (\<lambda>v. (Key v, VersionId v)) b \<and>
             Quiet (Delete params) \<and>
             (\<forall>err. DeleteObjects client params = Inl err \<longrightarrow>
                aborted w = Some (DeleteFailed err) \<and> sent w = [] \<and>
                (\<forall>maxCap race arrival load s.
                   listing_completes maxCap load fl client s \<and> fBucket fl = bucket \<and>
                   b \<in> set (dispatched (final_flush s)) \<longrightarrow>
                   (\<exists>err'. main maxCap race arrival load fl = Inl (DeleteFailed err')))) \<and>
             (\<forall>result. DeleteObjects client params = Inr result \<longrightarrow>
                aborted w = None \<and>
                sent w = [\<lparr>BatchSize = of_nat (length b),
                           ErrorCount = of_nat (length (Errors result))\<rparr>])) \<and>
         (\<forall>maxCap race arrival load s.
            listing_completes maxCap load fl client s \<and>
            (\<forall>d\<in>set (dispatched (final_flush s)).
               \<exists>result. DeleteObjects client (deleteParams (fBucket fl) d) = Inr result) \<longrightarrow>
            (\<exists>fin. main maxCap race arrival load fl = Inr fin \<and> final_state fin = final_flush s))"
proof -
  let ?params = "deleteParams bucket b"
  let ?w = "deleteObjectVersions client bucket b :: 'w worker_run"
  have one: "issued ?w = [?params]"
    by (simp add: deleteObjectVersions_def Let_def split: sum.splits)
  have req: "Bucket ?params = bucket \<and>
         map (\<lambda>i. (ObjectIdentifier_Key i, ObjectIdentifier_VersionId i))
           (Objects (Delete ?params)) = map (\<lambda>v. (Key v, VersionId v)) b \<and>
         Quiet (Delete ?params)"
    by (simp add: deleteParams_def comp_def)
  have fail: "\<forall>err. DeleteObjects client ?params = Inl err \<longrightarrow>
            aborted ?w = Some (DeleteFailed err) \<and> sent ?w = [] \<and>
            (\<forall>maxCap race arrival load s.
               listing_completes maxCap load fl client s \<and> fBucket fl = bucket \<and>
               b \<in> set (dispatched (final_flush s)) \<longrightarrow>
               (\<exists>err'. main maxCap race arrival load fl = Inl (DeleteFailed err')))"
  proof (intro allI impI conjI)
    fix err assume e: "DeleteObjects client ?params = Inl err"
    show "aborted ?w = Some (DeleteFailed err)"
      using e by (simp add: deleteObjectVersions_def Let_def)
    show "sent ?w = []" using e by (simp add: deleteObjectVersions_def Let_def)
    fix maxCap race :: nat
      and arrival :: "'w deleteBatchResult list \<Rightarrow> 'w deleteBatchResult list"
      and load :: "string \<Rightarrow> string + s3Client" and s :: "'w loop_state"
    assume a: "listing_completes maxCap load fl client s \<and> fBucket fl = bucket \<and>
               b \<in> set (dispatched (final_flush s))"
    then have lc: "listing_completes maxCap load fl client s" by (rule conjunct1)
    let ?ws = "map (deleteObjectVersions client (fBucket fl)) (dispatched (final_flush s))
                 :: 'w worker_run list"
    from a e have "aborts ?ws \<noteq> []" by (intro aborts_some[of b _ _ _ err]) auto
    then obtain g gs where g: "aborts ?ws = g # gs" by (cases "aborts ?ws") auto
    have "first_exit race g gs \<in> set (aborts ?ws)" unfolding g by (rule first_exit_mem)
    then obtain err' where "first_exit race g gs = DeleteFailed err'"
      by (blast dest: aborts_kind)
    then show "\<exists>err'. main maxCap race arrival load fl = Inl (DeleteFailed err')"
      unfolding main_after_listing[OF lc] g by simp
  qed
  have ok: "\<forall>result. DeleteObjects client ?params = Inr result \<longrightarrow>
            aborted ?w = None \<and>
            sent ?w = [\<lparr>BatchSize = of_nat (length b),
                        ErrorCount = of_nat (length (Errors result))\<rparr>]"
    by (simp add: deleteObjectVersions_def Let_def)
  have completes: "\<forall>maxCap race arrival load s.
            listing_completes maxCap load fl client s \<and>
            (\<forall>d\<in>set (dispatched (final_flush s)).
               \<exists>result. DeleteObjects client (deleteParams (fBucket fl) d) = Inr result) \<longrightarrow>
            (\<exists>fin. main maxCap race arrival load fl = Inr fin \<and> final_state fin = final_flush s)"
  proof (intro allI impI)
    fix maxCap race :: nat
      and arrival :: "'w deleteBatchResult list \<Rightarrow> 'w deleteBatchResult list"
      and load :: "string \<Rightarrow> string + s3Client" and s :: "'w loop_state"
    assume a: "listing_completes maxCap load fl client s \<and>
            (\<forall>d\<in>set (dispatched (final_flush s)).
               \<exists>result. DeleteObjects client (deleteParams (fBucket fl) d) = Inr result)"
    then have lc: "listing_completes maxCap load fl client s" by (rule conjunct1)
    from a have "aborts (map (deleteObjectVersions client (fBucket fl))
            (dispatched (final_flush s)) :: 'w worker_run list) = []"
      by (intro aborts_none) blast
    then show "\<exists>fin. main maxCap race arrival load fl = Inr fin \<and> final_state fin = final_flush s"
      unfolding main_after_listing[OF lc] by simp
  qed
  show ?thesis unfolding Let_def using one req fail ok completes by (intro conjI) blast+
qed

theorem worker_one_request_one_result_witness:
  "DeleteObjects failing_client (deleteParams ''bucket'' [\<lparr>Key = ''logs/b'', VersionId = ''1''\<rparr>]) =
     Inl ''RequestTimeout'' \<and>
   aborted (deleteObjectVersions failing_client ''bucket''
              [\<lparr>Key = ''logs/b'', VersionId = ''1''\<rparr>] :: 64 worker_run) =
     Some (DeleteFailed ''RequestTimeout'') \<and>
   sent (deleteObjectVersions failing_client ''bucket''
           [\<lparr>Key = ''logs/b'', VersionId = ''1''\<rparr>] :: 64 worker_run) = [] \<and>
   (\<exists>err'. main 1000 0 rev failing_load example_flags = Inl (DeleteFailed err')) \<and>
   (\<exists>result. DeleteObjects example_client
        (deleteParams ''bucket'' [\<lparr>Key = ''logs/b'', VersionId = ''1''\<rparr>]) = Inr result \<and>
      length (Errors result) = 1 \<and>
      aborted (deleteObjectVersions example_client ''bucket''
                 [\<lparr>Key = ''logs/b'', VersionId = ''1''\<rparr>] :: 64 worker_run) = None \<and>
      sent (deleteObjectVersions example_client ''bucket''
              [\<lparr>Key = ''logs/b'', VersionId = ''1''\<rparr>] :: 64 worker_run) =
        [\<lparr>BatchSize = of_nat (length [\<lparr>Key = ''logs/b'', VersionId = ''1''\<rparr>]),
          ErrorCount = of_nat (length (Errors result))\<rparr>]) \<and>
   (\<exists>fin. main 1000 0 rev example_load example_flags = Inr fin)"
proof -
  let ?b = "[\<lparr>Key = ''logs/b'', VersionId = ''1''\<rparr>]"
  let ?s = "\<lparr>batch = ?b, numObjects = 3 :: 64 word,
             dispatched = [[\<lparr>Key = ''logs/a'', VersionId = ''1''\<rparr>,
                            \<lparr>Key = ''logs/a'', VersionId = ''2''\<rparr>]]\<rparr>"
  have f: "DeleteObjects failing_client (deleteParams ''bucket'' ?b) = Inl ''RequestTimeout''"
    by (simp add: failing_client_def)
  obtain result where g: "DeleteObjects example_client (deleteParams ''bucket'' ?b) = Inr result"
    and n: "length (Errors result) = 1"
    by (simp add: example_client_def deleteParams_def)
  have loop: "listing_loop (normalized_prefix (fPrefix example_flags)) (fBatchSize example_flags)
        (map Inr example_pages) initial_state = Inr ?s"
    by (simp add: example_flags_def example_pages_def normalized_prefix_def Trim_def
        initial_state_def deleteVersion_def HasPrefix_def Let_def)
  have flags: "fBucket example_flags \<noteq> [] \<and> fBatchSize example_flags \<le> MaxInt \<and>
      fBucket example_flags = ''bucket'' \<and> normalized_prefix (fPrefix example_flags) = ''logs/'' \<and>
      sint (fBatchSize example_flags) \<le> 1000"
    by (simp add: example_flags_def MaxInt_def mask_eq_exp_minus_1 normalized_prefix_def Trim_def)
  have run: "listing_completes 1000 failing_load example_flags failing_client ?s"
    using loop flags
    by (simp add: listing_completes_def failing_load_def failing_client_def example_client_def)
  have run': "listing_completes 1000 example_load example_flags example_client ?s"
    using loop flags
    by (simp add: listing_completes_def example_load_def example_client_def)
  have sent: "?b \<in> set (dispatched (final_flush ?s))" by (simp add: final_flush_def)
  have all: "\<forall>d\<in>set (dispatched (final_flush ?s)).
      \<exists>result. DeleteObjects example_client (deleteParams (fBucket example_flags) d) = Inr result"
    by (simp add: example_client_def)
  note failing = worker_one_request_one_result
    [where client = failing_client and bucket = "''bucket''" and b = ?b and fl = example_flags,
     unfolded Let_def]
  note reporting = worker_one_request_one_result
    [where client = example_client and bucket = "''bucket''" and b = ?b and fl = example_flags,
     unfolded Let_def]
  from failing f have a: "aborted (deleteObjectVersions failing_client ''bucket'' ?b :: 64 worker_run) =
      Some (DeleteFailed ''RequestTimeout'')"
    and s: "sent (deleteObjectVersions failing_client ''bucket'' ?b :: 64 worker_run) = []"
    and m: "\<forall>maxCap race arrival load s.
               listing_completes maxCap load example_flags failing_client s \<and>
               fBucket example_flags = ''bucket'' \<and>
               ?b \<in> set (dispatched (final_flush s)) \<longrightarrow>
               (\<exists>err'. main maxCap race arrival load example_flags = Inl (DeleteFailed err'))"
    by blast+
  from m run flags sent have x: "\<exists>err'. main 1000 0 rev failing_load example_flags = Inl (DeleteFailed err')"
    by blast
  from reporting g have r:
    "aborted (deleteObjectVersions example_client ''bucket'' ?b :: 64 worker_run) = None \<and>
     sent (deleteObjectVersions example_client ''bucket'' ?b :: 64 worker_run) =
       [\<lparr>BatchSize = of_nat (length ?b), ErrorCount = of_nat (length (Errors result))\<rparr>]"
    by blast
  from reporting have "\<forall>maxCap race arrival load s.
            listing_completes maxCap load example_flags example_client s \<and>
            (\<forall>d\<in>set (dispatched (final_flush s)).
               \<exists>result. DeleteObjects example_client (deleteParams (fBucket example_flags) d) =
                  Inr result) \<longrightarrow>
            (\<exists>fin. main maxCap race arrival load example_flags = Inr fin \<and> final_state fin = final_flush s)"
    by (elim conjE)
  with run' all have y: "\<exists>fin. main 1000 0 rev example_load example_flags = Inr fin" by blast
  from f a s x g n r y show ?thesis by blast
qed

text \<open>
  C7. When the configuration is accepted, line 96 allocates the batch and the listing
  yields no entry, the run dispatches no Delete Worker, writes the single line
  \<open>total number of objects: 0\<close> and ends successfully.
\<close>

theorem empty_listing_run:
  fixes fl :: "'w :: len flags"
  assumes order: "\<forall>rs :: 'w deleteBatchResult list. mset (arrival rs) = mset rs"
    and bucket: "fBucket fl \<noteq> []"
    and size: "fBatchSize fl \<le> MaxInt"
    and client: "load (fRegion fl) = Inr client"
    and cap: "sint (fBatchSize fl) \<le> int maxCap"
    and pages: "ListObjectVersionsPaginator client
                  \<lparr>List_Bucket = fBucket fl, List_Prefix = normalized_prefix (fPrefix fl)\<rparr> =
                map Inr pages"
    and empty: "listing_order pages = []"
  shows "\<exists>fin. main maxCap race arrival load fl = Inr fin \<and>
           dispatched (final_state fin) = [] \<and>
           numObjects (final_state fin) = 0 \<and>
           stdout fin = [''total number of objects: 0'']"
proof -
  let ?prefix = "normalized_prefix (fPrefix fl)"
  have loop: "listing_loop ?prefix (fBatchSize fl) (map Inr pages) initial_state = Inr initial_state"
    by (simp add: listing_loop_pages empty)
  have lc: "listing_completes maxCap load fl client initial_state"
    unfolding listing_completes_def pages using bucket size client cap loop by simp
  have flush: "final_flush (initial_state :: 'w loop_state) = initial_state"
    by (simp add: final_flush_def initial_state_def)
  have none: "arrival [] = []" using order by (metis mset_zero_iff)
  have d0: "dispatched (initial_state :: 'w loop_state) = []"
    and n0: "numObjects (initial_state :: 'w loop_state) = 0"
    by (simp_all add: initial_state_def)
  have p0: "progress (aggregator [] :: 'w totals) = []" by (simp add: aggregator_def)
  show ?thesis
    unfolding main_after_listing[OF lc] flush
    by (simp add: d0 n0 none p0 fmt_d_0)
qed

theorem empty_listing_run_witness:
  "(\<forall>rs :: 64 deleteBatchResult list. mset (rev rs) = mset rs) \<and>
   fBucket example_flags \<noteq> [] \<and> fBatchSize example_flags \<le> MaxInt \<and>
   empty_load (fRegion example_flags) = Inr empty_client \<and>
   sint (fBatchSize example_flags) \<le> int 1000 \<and>
   ListObjectVersionsPaginator empty_client
     \<lparr>List_Bucket = fBucket example_flags,
      List_Prefix = normalized_prefix (fPrefix example_flags)\<rparr> =
     map Inr [\<lparr>Versions = [], DeleteMarkers = []\<rparr>] \<and>
   listing_order [\<lparr>Versions = [], DeleteMarkers = []\<rparr>] = [] \<and>
   (\<exists>fin. main 1000 0 rev empty_load example_flags = Inr fin \<and>
      dispatched (final_state fin) = [] \<and>
      numObjects (final_state fin) = 0 \<and>
      stdout fin = [''total number of objects: 0''])"
proof -
  have o: "\<forall>rs :: 64 deleteBatchResult list. mset (rev rs) = mset rs" by simp
  have b: "fBucket example_flags \<noteq> []" by (simp add: example_flags_def)
  have z: "fBatchSize example_flags \<le> MaxInt"
    by (simp add: example_flags_def MaxInt_def mask_eq_exp_minus_1)
  have c: "empty_load (fRegion example_flags) = Inr empty_client" by (simp add: empty_load_def)
  have m: "sint (fBatchSize example_flags) \<le> int 1000" by (simp add: example_flags_def)
  have p: "ListObjectVersionsPaginator empty_client
     \<lparr>List_Bucket = fBucket example_flags,
      List_Prefix = normalized_prefix (fPrefix example_flags)\<rparr> =
     map Inr [\<lparr>Versions = [], DeleteMarkers = []\<rparr>]"
    by (simp add: empty_client_def)
  have e: "listing_order [\<lparr>Versions = [], DeleteMarkers = []\<rparr>] = []"
    by (simp add: listing_order_def)
  from empty_listing_run[where load = empty_load and fl = example_flags and race = 0,
      OF o b z c m p e] o b z c m p e
  show ?thesis by (intro conjI)
qed

text \<open>
  C8. Every \<open>-prefix\<close> flag splits into a run of leading slashes, a core that neither
  starts nor ends with a slash, and a run of trailing slashes; for every such split the
  normalized prefix is empty when the core is empty, and the core followed by one slash
  otherwise. \<open>main\<close> lists with it: a run that completes has dispatched exactly the
  entries that the collaborator yields for the request naming the normalized prefix, and
  all of them passed the scope check against it. \<open>main\<close> checks the scope with it: when
  that listing reaches a key that does not start with the non-empty normalized prefix,
  the run ends fatally, with \<open>OutOfPrefix\<close> for that key unless a worker's failed request
  comes first.
\<close>

theorem prefix_normalization:
  "(\<exists>lead core trail. p = lead @ core @ trail \<and>
      set lead \<subseteq> {CHR ''/''} \<and> set trail \<subseteq> {CHR ''/''} \<and>
      (core = [] \<or> (hd core \<noteq> CHR ''/'' \<and> last core \<noteq> CHR ''/''))) \<and>
   (\<forall>lead core trail. p = lead @ core @ trail \<and>
      set lead \<subseteq> {CHR ''/''} \<and> set trail \<subseteq> {CHR ''/''} \<and>
      (core = [] \<or> (hd core \<noteq> CHR ''/'' \<and> last core \<noteq> CHR ''/'')) \<longrightarrow>
      normalized_prefix p = (if core = [] then [] else core @ ''/'')) \<and>
   (\<forall>maxCap race arrival load (fl :: ('w :: len) flags) client fin.
      fPrefix fl = p \<and> main maxCap race arrival load fl = Inr fin \<and>
      load (fRegion fl) = Inr client \<longrightarrow>
      (\<exists>pages.
         ListObjectVersionsPaginator client
           \<lparr>List_Bucket = fBucket fl, List_Prefix = normalized_prefix p\<rparr> = map Inr pages \<and>
         (\<forall>e\<in>set (listing_order pages). in_scope (normalized_prefix p) (fst e)) \<and>
         concat (dispatched (final_state fin)) = map entry_of (listing_order pages))) \<and>
   (\<forall>maxCap race arrival load (fl :: 'w flags) client pages rest before key versionId after.
      fPrefix fl = p \<and> reaches_listing maxCap load fl client \<and>
      ListObjectVersionsPaginator client
        \<lparr>List_Bucket = fBucket fl, List_Prefix = normalized_prefix p\<rparr> = map Inr pages @ rest \<and>
      listing_order pages = before @ (key, versionId) # after \<and>
      (\<forall>e\<in>set before. in_scope (normalized_prefix p) (fst e)) \<and>
      \<not> in_scope (normalized_prefix p) key \<longrightarrow>
      (\<exists>f. main maxCap race arrival load fl = Inl f \<and>
           (f = OutOfPrefix key \<or> (\<exists>err. f = DeleteFailed err))) \<and>
      ((\<forall>params. \<exists>result. DeleteObjects client params = Inr result) \<longrightarrow>
         main maxCap race arrival load fl = Inl (OutOfPrefix key)))"
proof (intro conjI allI impI)
  show "\<exists>lead core trail. p = lead @ core @ trail \<and>
      set lead \<subseteq> {CHR ''/''} \<and> set trail \<subseteq> {CHR ''/''} \<and>
      (core = [] \<or> (hd core \<noteq> CHR ''/'' \<and> last core \<noteq> CHR ''/''))"
    by (rule Trim_decomposition)
next
  fix lead core trail
  assume a: "p = lead @ core @ trail \<and>
      set lead \<subseteq> {CHR ''/''} \<and> set trail \<subseteq> {CHR ''/''} \<and>
      (core = [] \<or> (hd core \<noteq> CHR ''/'' \<and> last core \<noteq> CHR ''/''))"
  then have "Trim p ''/'' = core" using Trim_slashes[of lead trail core] by blast
  then show "normalized_prefix p = (if core = [] then [] else core @ ''/'')"
    by (simp add: normalized_prefix_def)
next
  fix maxCap race arrival load and fl :: "'w flags" and client fin
  assume a: "fPrefix fl = p \<and> main maxCap race arrival load fl = Inr fin \<and>
      load (fRegion fl) = Inr client"
  then have run: "main maxCap race arrival load fl = Inr fin"
    and c: "load (fRegion fl) = Inr client" and p: "fPrefix fl = p"
    by simp_all
  from completed_run_listing[OF run c]
  show "\<exists>pages.
         ListObjectVersionsPaginator client
           \<lparr>List_Bucket = fBucket fl, List_Prefix = normalized_prefix p\<rparr> = map Inr pages \<and>
         (\<forall>e\<in>set (listing_order pages). in_scope (normalized_prefix p) (fst e)) \<and>
         concat (dispatched (final_state fin)) = map entry_of (listing_order pages)"
    unfolding p by blast
next
  fix maxCap race arrival load and fl :: "'w flags"
    and client pages rest before key versionId after
  assume a: "fPrefix fl = p \<and> reaches_listing maxCap load fl client \<and>
      ListObjectVersionsPaginator client
        \<lparr>List_Bucket = fBucket fl, List_Prefix = normalized_prefix p\<rparr> = map Inr pages @ rest \<and>
      listing_order pages = before @ (key, versionId) # after \<and>
      (\<forall>e\<in>set before. in_scope (normalized_prefix p) (fst e)) \<and>
      \<not> in_scope (normalized_prefix p) key"
  then have p: "fPrefix fl = p" by simp
  from a have "(\<exists>f. main maxCap race arrival load fl = Inl f \<and>
              (f = OutOfPrefix key \<or> (\<exists>err. f = DeleteFailed err))) \<and>
         ((\<forall>params. \<exists>result. DeleteObjects client params = Inr result) \<longrightarrow>
            main maxCap race arrival load fl = Inl (OutOfPrefix key))"
    by (intro main_scope_violation[where pages = pages and rest = rest and before = before
          and versionId = versionId and after = after]) (simp_all add: p)
  then show "\<exists>f. main maxCap race arrival load fl = Inl f \<and>
           (f = OutOfPrefix key \<or> (\<exists>err. f = DeleteFailed err))"
    and "(\<forall>params. \<exists>result. DeleteObjects client params = Inr result) \<Longrightarrow>
         main maxCap race arrival load fl = Inl (OutOfPrefix key)"
    by blast+
qed

theorem prefix_normalization_witness:
  "fPrefix example_flags = ''/'' @ ''logs'' @ ''/'' \<and>
   normalized_prefix (fPrefix example_flags) = ''logs/'' \<and>
   (\<exists>fin. main 1000 0 rev example_load example_flags = Inr fin \<and>
      ListObjectVersionsPaginator example_client
        \<lparr>List_Bucket = fBucket example_flags, List_Prefix = ''logs/''\<rparr> = map Inr example_pages \<and>
      concat (dispatched (final_state fin)) = map entry_of (listing_order example_pages)) \<and>
   normalized_prefix (fPrefix stray_flags) = ''a/b/'' \<and>
   main 1000 0 rev stray_load stray_flags = Inl (OutOfPrefix ''c/d'')"
proof -
  note logs = prefix_normalization[where p = "fPrefix example_flags" and 'w = 64]
  note stray = prefix_normalization[where p = "fPrefix stray_flags" and 'w = 64]
  have split: "fPrefix example_flags = ''/'' @ ''logs'' @ ''/''" by (simp add: example_flags_def)
  have shape: "fPrefix example_flags = ''/'' @ ''logs'' @ ''/'' \<and>
      set ''/'' \<subseteq> {CHR ''/''} \<and> set ''/'' \<subseteq> {CHR ''/''} \<and>
      (''logs'' = [] \<or> (hd ''logs'' \<noteq> CHR ''/'' \<and> last ''logs'' \<noteq> CHR ''/''))"
    by (simp add: example_flags_def)
  from logs have "\<forall>lead core trail. fPrefix example_flags = lead @ core @ trail \<and>
      set lead \<subseteq> {CHR ''/''} \<and> set trail \<subseteq> {CHR ''/''} \<and>
      (core = [] \<or> (hd core \<noteq> CHR ''/'' \<and> last core \<noteq> CHR ''/'')) \<longrightarrow>
      normalized_prefix (fPrefix example_flags) = (if core = [] then [] else core @ ''/'')"
    by (elim conjE)
  with shape have "normalized_prefix (fPrefix example_flags) =
      (if ''logs'' = [] then [] else ''logs'' @ ''/'')"
    by blast
  then have n: "normalized_prefix (fPrefix example_flags) = ''logs/''" by simp
  have "\<not> isl (main 1000 0 rev example_load example_flags)" by code_simp
  then obtain fin where r: "main 1000 0 rev example_load example_flags = Inr fin"
    by (cases "main 1000 0 rev example_load example_flags") auto
  have c: "example_load (fRegion example_flags) = Inr example_client"
    by (simp add: example_load_def)
  have pg: "ListObjectVersionsPaginator example_client
        \<lparr>List_Bucket = fBucket example_flags, List_Prefix = ''logs/''\<rparr> = map Inr example_pages"
    by (simp add: example_client_def)
  from logs have "\<forall>maxCap race arrival load (fl :: 64 flags) client fin.
      fPrefix fl = fPrefix example_flags \<and> main maxCap race arrival load fl = Inr fin \<and>
      load (fRegion fl) = Inr client \<longrightarrow>
      (\<exists>pages.
         ListObjectVersionsPaginator client
           \<lparr>List_Bucket = fBucket fl,
            List_Prefix = normalized_prefix (fPrefix example_flags)\<rparr> = map Inr pages \<and>
         (\<forall>e\<in>set (listing_order pages).
            in_scope (normalized_prefix (fPrefix example_flags)) (fst e)) \<and>
         concat (dispatched (final_state fin)) = map entry_of (listing_order pages))"
    by (elim conjE)
  with r c obtain pages where
    "ListObjectVersionsPaginator example_client
       \<lparr>List_Bucket = fBucket example_flags,
        List_Prefix = normalized_prefix (fPrefix example_flags)\<rparr> = map Inr pages"
    and d: "concat (dispatched (final_state fin)) = map entry_of (listing_order pages)"
    by blast
  then have "map Inr pages = (map Inr example_pages :: (string + page) list)"
    using pg by (simp add: n)
  then have "pages = example_pages" by (simp add: inj_map_eq_map)
  with d have listed: "concat (dispatched (final_state fin)) =
      map entry_of (listing_order example_pages)" by simp
  have n': "normalized_prefix (fPrefix stray_flags) = ''a/b/''"
    by (simp add: stray_flags_def normalized_prefix_def Trim_def)
  have hyp: "fPrefix stray_flags = fPrefix stray_flags \<and>
      reaches_listing 1000 stray_load stray_flags stray_client \<and>
      ListObjectVersionsPaginator stray_client
        \<lparr>List_Bucket = fBucket stray_flags,
         List_Prefix = normalized_prefix (fPrefix stray_flags)\<rparr> = map Inr stray_pages @ [] \<and>
      listing_order stray_pages =
        [(''a/b/x'', ''1'')] @ (''c/d'', ''1'') # [(''a/b/y'', ''1''), (''a/b/z'', ''2'')] \<and>
      (\<forall>e\<in>set [(''a/b/x'', ''1'')]. in_scope (normalized_prefix (fPrefix stray_flags)) (fst e)) \<and>
      \<not> in_scope (normalized_prefix (fPrefix stray_flags)) ''c/d''"
    unfolding n'
    by (simp add: reaches_listing_def stray_flags_def stray_load_def stray_client_def
        stray_pages_def listing_order_def in_scope_def HasPrefix_def MaxInt_def
        mask_eq_exp_minus_1)
  have succeed: "\<forall>params. \<exists>result. DeleteObjects stray_client params = Inr result"
    by (simp add: stray_client_def)
  from stray have "\<forall>maxCap race arrival load (fl :: 64 flags) client pages rest before key
        versionId after.
      fPrefix fl = fPrefix stray_flags \<and> reaches_listing maxCap load fl client \<and>
      ListObjectVersionsPaginator client
        \<lparr>List_Bucket = fBucket fl,
         List_Prefix = normalized_prefix (fPrefix stray_flags)\<rparr> = map Inr pages @ rest \<and>
      listing_order pages = before @ (key, versionId) # after \<and>
      (\<forall>e\<in>set before. in_scope (normalized_prefix (fPrefix stray_flags)) (fst e)) \<and>
      \<not> in_scope (normalized_prefix (fPrefix stray_flags)) key \<longrightarrow>
      (\<exists>f. main maxCap race arrival load fl = Inl f \<and>
           (f = OutOfPrefix key \<or> (\<exists>err. f = DeleteFailed err))) \<and>
      ((\<forall>params. \<exists>result. DeleteObjects client params = Inr result) \<longrightarrow>
         main maxCap race arrival load fl = Inl (OutOfPrefix key))"
    by (elim conjE)
  with hyp have "(\<forall>params. \<exists>result. DeleteObjects stray_client params = Inr result) \<longrightarrow>
         main 1000 0 rev stray_load stray_flags = Inl (OutOfPrefix ''c/d'')"
    by blast
  with succeed have fatal: "main 1000 0 rev stray_load stray_flags = Inl (OutOfPrefix ''c/d'')"
    by (rule rev_mp)
  from split n r pg listed n' fatal show ?thesis by blast
qed

text \<open>
  C9. \<open>main\<close> exits with \<open>illegal batch size\<close> exactly when the bucket is given and the
  flag \<open>-batch\<close> exceeds \<open>math.MaxInt\<close>, which 0 does not (an accepted size that \<open>make\<close>
  cannot allocate ends in the panic of line 96 instead; the capacity 0 is always
  allocated). In a run of \<open>main\<close> with batch size 0 whose listing stays within the prefix,
  no batch is dispatched at any point of the listing (the length of the batch after an
  append is at least 1) and all listed entries stay in the open batch; when \<open>N > 0\<close> the
  final flush dispatches them as one batch of \<open>N\<close> entries, and the run completes with
  exactly that batch dispatched, or ends with the failure of its one delete request;
  when \<open>N = 0\<close> the run completes with nothing dispatched.
\<close>

theorem batch_size_zero:
  fixes fl :: "'w :: len flags"
  shows "(main maxCap race arrival load fl = Inl IllegalBatchSize \<longleftrightarrow>
            fBucket fl \<noteq> [] \<and> MaxInt < fBatchSize fl) \<and>
         \<not> MaxInt < (0 :: 'w word) \<and>
         (fBucket fl \<noteq> [] \<and> fBatchSize fl \<le> MaxInt \<and> load (fRegion fl) = Inr client \<and>
          int maxCap < sint (fBatchSize fl) \<longrightarrow>
            main maxCap race arrival load fl = Inl MakeSlicePanic) \<and>
         (fBatchSize fl = 0 \<and> fBucket fl \<noteq> [] \<and> load (fRegion fl) = Inr client \<and>
          ListObjectVersionsPaginator client
            \<lparr>List_Bucket = fBucket fl, List_Prefix = normalized_prefix (fPrefix fl)\<rparr> =
            map Inr pages \<and>
          (\<forall>e\<in>set (listing_order pages). in_scope (normalized_prefix (fPrefix fl)) (fst e)) \<longrightarrow>
            (\<exists>s. listing_completes maxCap load fl client s \<and> dispatched s = [] \<and>
                 batch s = map entry_of (listing_order pages)) \<and>
            (\<forall>n. \<exists>t. range_deleteVersion (normalized_prefix (fPrefix fl)) (fBatchSize fl)
                        (take n (listing_order pages)) initial_state = Inr t \<and>
                      dispatched t = []) \<and>
            (listing_order pages = [] \<longrightarrow>
               (\<exists>fin. main maxCap race arrival load fl = Inr fin \<and>
                      dispatched (final_state fin) = [])) \<and>
            (listing_order pages \<noteq> [] \<longrightarrow>
               (\<forall>result. DeleteObjects client
                    (deleteParams (fBucket fl) (map entry_of (listing_order pages))) = Inr result \<longrightarrow>
                  (\<exists>fin. main maxCap race arrival load fl = Inr fin \<and>
                         dispatched (final_state fin) = [map entry_of (listing_order pages)])) \<and>
               (\<forall>err. DeleteObjects client
                    (deleteParams (fBucket fl) (map entry_of (listing_order pages))) = Inl err \<longrightarrow>
                  main maxCap race arrival load fl = Inl (DeleteFailed err))))"
proof (intro conjI impI)
  show "main maxCap race arrival load fl = Inl IllegalBatchSize \<longleftrightarrow>
          fBucket fl \<noteq> [] \<and> MaxInt < fBatchSize fl"
    by (rule main_illegal_iff)
  show "\<not> MaxInt < (0 :: 'w word)" by simp
next
  assume "fBucket fl \<noteq> [] \<and> fBatchSize fl \<le> MaxInt \<and> load (fRegion fl) = Inr client \<and>
          int maxCap < sint (fBatchSize fl)"
  then show "main maxCap race arrival load fl = Inl MakeSlicePanic"
    by (intro main_make_panics[where client = client]) simp_all
next
  let ?es = "listing_order pages"
  let ?prefix = "normalized_prefix (fPrefix fl)"
  assume a: "fBatchSize fl = 0 \<and> fBucket fl \<noteq> [] \<and> load (fRegion fl) = Inr client \<and>
          ListObjectVersionsPaginator client
            \<lparr>List_Bucket = fBucket fl, List_Prefix = ?prefix\<rparr> = map Inr pages \<and>
          (\<forall>e\<in>set ?es. in_scope ?prefix (fst e))"
  then have zero: "fBatchSize fl = 0" and bucket: "fBucket fl \<noteq> []"
    and client: "load (fRegion fl) = Inr client"
    and outs: "ListObjectVersionsPaginator client
            \<lparr>List_Bucket = fBucket fl, List_Prefix = ?prefix\<rparr> = map Inr pages"
    and scope: "\<forall>e\<in>set ?es. in_scope ?prefix (fst e)"
    by simp_all
  from zero_batch_listing[where load = load and fl = fl and maxCap = maxCap,
      OF zero bucket client outs scope]
  obtain s where lc: "listing_completes maxCap load fl client s"
    and d: "dispatched s = []" and b: "batch s = map entry_of ?es"
    and f: "final_flush s = s\<lparr>dispatched := (if ?es = [] then [] else [map entry_of ?es])\<rparr>"
    by blast
  show "\<exists>s. listing_completes maxCap load fl client s \<and> dispatched s = [] \<and>
           batch s = map entry_of ?es"
    using lc d b by blast
  show "\<forall>n. \<exists>t. range_deleteVersion ?prefix (fBatchSize fl) (take n ?es) initial_state = Inr t \<and>
                 dispatched t = []"
    unfolding zero using zero_batch_never_seals[OF scope] by blast
  {
    assume e: "?es = []"
    then have "dispatched (final_flush s) = []" by (simp add: f)
    from no_worker_run[OF lc this, of race arrival] this
    show "\<exists>fin. main maxCap race arrival load fl = Inr fin \<and> dispatched (final_state fin) = []"
      by auto
  }
  {
    assume ne: "?es \<noteq> []"
    then have one: "dispatched (final_flush s) = [map entry_of ?es]" by (simp add: f)
    note w = single_worker_run[OF lc one, of race arrival]
    show "\<forall>err. DeleteObjects client (deleteParams (fBucket fl) (map entry_of ?es)) = Inl err \<longrightarrow>
            main maxCap race arrival load fl = Inl (DeleteFailed err)"
      using w by blast
    show "\<forall>result. DeleteObjects client (deleteParams (fBucket fl) (map entry_of ?es)) = Inr result \<longrightarrow>
            (\<exists>fin. main maxCap race arrival load fl = Inr fin \<and>
                   dispatched (final_state fin) = [map entry_of ?es])"
      using w one by auto
  }
qed

theorem batch_size_zero_witness:
  "main 1000 0 rev example_load (example_flags\<lparr>fBatchSize := 0\<rparr>) \<noteq> Inl IllegalBatchSize \<and>
   listing_order example_pages \<noteq> [] \<and>
   (\<exists>s. listing_completes 1000 example_load (example_flags\<lparr>fBatchSize := 0\<rparr>) example_client s \<and>
      dispatched s = [] \<and> batch s = map entry_of (listing_order example_pages)) \<and>
   (\<exists>fin. main 1000 0 rev example_load (example_flags\<lparr>fBatchSize := 0\<rparr>) = Inr fin \<and>
      dispatched (final_state fin) = [map entry_of (listing_order example_pages)])"
proof -
  let ?fl = "example_flags\<lparr>fBatchSize := 0\<rparr>"
  note zero = batch_size_zero[where fl = ?fl and maxCap = 1000 and race = 0 and arrival = rev
      and load = example_load and client = example_client and pages = example_pages]
  have hyp: "fBatchSize ?fl = 0 \<and> fBucket ?fl \<noteq> [] \<and>
      example_load (fRegion ?fl) = Inr example_client \<and>
      ListObjectVersionsPaginator example_client
        \<lparr>List_Bucket = fBucket ?fl, List_Prefix = normalized_prefix (fPrefix ?fl)\<rparr> =
        map Inr example_pages \<and>
      (\<forall>e\<in>set (listing_order example_pages). in_scope (normalized_prefix (fPrefix ?fl)) (fst e))"
    by (simp add: example_flags_def example_load_def example_client_def example_pages_def
        normalized_prefix_def Trim_def listing_order_def in_scope_def HasPrefix_def)
  have ne: "listing_order example_pages \<noteq> []"
    by (simp add: example_pages_def listing_order_def)
  obtain result where ok: "DeleteObjects example_client
      (deleteParams (fBucket ?fl) (map entry_of (listing_order example_pages))) = Inr result"
    by (simp add: example_client_def)
  from zero have "main 1000 0 rev example_load ?fl = Inl IllegalBatchSize \<longleftrightarrow>
      fBucket ?fl \<noteq> [] \<and> MaxInt < fBatchSize ?fl"
    by (elim conjE)
  then have a: "main 1000 0 rev example_load ?fl \<noteq> Inl IllegalBatchSize" by simp
  from zero hyp have b: "\<exists>s. listing_completes 1000 example_load ?fl example_client s \<and>
      dispatched s = [] \<and> batch s = map entry_of (listing_order example_pages)"
    by blast
  from zero hyp ne have "\<forall>result. DeleteObjects example_client
        (deleteParams (fBucket ?fl) (map entry_of (listing_order example_pages))) = Inr result \<longrightarrow>
      (\<exists>fin. main 1000 0 rev example_load ?fl = Inr fin \<and>
         dispatched (final_state fin) = [map entry_of (listing_order example_pages)])"
    by blast
  with ok have c: "\<exists>fin. main 1000 0 rev example_load ?fl = Inr fin \<and>
      dispatched (final_state fin) = [map entry_of (listing_order example_pages)]"
    by blast
  from a ne b c show ?thesis by (intro conjI)
qed

text \<open>
  C10. When the \<open>-prefix\<close> flag consists of slashes only, the normalized prefix is empty
  and \<open>deleteVersion\<close> rejects no key. A run of \<open>main\<close> with such a flag lists with the
  request that names the empty prefix, which selects the whole bucket: its listing loop
  runs to the end of what the collaborator yields for that request, every version and
  delete marker of it is dispatched in a batch, the run completes when the delete
  requests complete, and its only fatal exits are failed delete requests.
\<close>

theorem slash_only_prefix:
  fixes fl :: "'w :: len flags"
  assumes slashes: "set (fPrefix fl) \<subseteq> {CHR ''/''}"
  shows "normalized_prefix (fPrefix fl) = [] \<and>
         (\<forall>key versionId (s :: 'w loop_state).
            \<exists>s'. deleteVersion (normalized_prefix (fPrefix fl)) (fBatchSize fl) key versionId s = Inr s') \<and>
         (\<forall>maxCap race arrival load client pages.
            reaches_listing maxCap load fl client \<and>
            ListObjectVersionsPaginator client \<lparr>List_Bucket = fBucket fl, List_Prefix = []\<rparr> =
              map Inr pages \<longrightarrow>
            (\<exists>s. listing_completes maxCap load fl client s \<and>
                 concat (dispatched (final_flush s)) = map entry_of (listing_order pages) \<and>
                 ((\<forall>d\<in>set (dispatched (final_flush s)).
                     \<exists>result. DeleteObjects client (deleteParams (fBucket fl) d) = Inr result) \<longrightarrow>
                  (\<exists>fin. main maxCap race arrival load fl = Inr fin \<and>
                         concat (dispatched (final_state fin)) =
                           map entry_of (listing_order pages)))) \<and>
            (\<forall>f. main maxCap race arrival load fl = Inl f \<longrightarrow> (\<exists>err. f = DeleteFailed err)))"
proof -
  have n: "normalized_prefix (fPrefix fl) = []" by (rule normalized_slashes[OF slashes])
  have sc: "\<And>key. in_scope [] key" by (simp add: in_scope_def)
  have d: "\<forall>key versionId (s :: 'w loop_state).
            \<exists>s'. deleteVersion (normalized_prefix (fPrefix fl)) (fBatchSize fl) key versionId s = Inr s'"
    unfolding n using deleteVersion_accepts[OF sc] by blast
  have r: "\<forall>maxCap race arrival load client pages.
            reaches_listing maxCap load fl client \<and>
            ListObjectVersionsPaginator client \<lparr>List_Bucket = fBucket fl, List_Prefix = []\<rparr> =
              map Inr pages \<longrightarrow>
            (\<exists>s. listing_completes maxCap load fl client s \<and>
                 concat (dispatched (final_flush s)) = map entry_of (listing_order pages) \<and>
                 ((\<forall>d\<in>set (dispatched (final_flush s)).
                     \<exists>result. DeleteObjects client (deleteParams (fBucket fl) d) = Inr result) \<longrightarrow>
                  (\<exists>fin. main maxCap race arrival load fl = Inr fin \<and>
                         concat (dispatched (final_state fin)) =
                           map entry_of (listing_order pages)))) \<and>
            (\<forall>f. main maxCap race arrival load fl = Inl f \<longrightarrow> (\<exists>err. f = DeleteFailed err))"
  proof (intro allI impI)
    fix maxCap race :: nat
      and arrival :: "'w deleteBatchResult list \<Rightarrow> 'w deleteBatchResult list"
      and load :: "string \<Rightarrow> string + s3Client" and client pages
    assume a: "reaches_listing maxCap load fl client \<and>
            ListObjectVersionsPaginator client \<lparr>List_Bucket = fBucket fl, List_Prefix = []\<rparr> =
              map Inr pages"
    then have reach: "reaches_listing maxCap load fl client"
      and outs: "ListObjectVersionsPaginator client
          \<lparr>List_Bucket = fBucket fl, List_Prefix = normalized_prefix (fPrefix fl)\<rparr> = map Inr pages"
      by (simp_all add: n)
    have scope: "\<forall>e\<in>set (listing_order pages). in_scope (normalized_prefix (fPrefix fl)) (fst e)"
      unfolding n using sc by simp
    from main_lists_all[OF reach outs scope]
    obtain s where lc: "listing_completes maxCap load fl client s"
      and cat: "concat (dispatched (final_flush s)) = map entry_of (listing_order pages)"
      by blast
    let ?ws = "map (deleteObjectVersions client (fBucket fl)) (dispatched (final_flush s))
                 :: 'w worker_run list"
    have completes: "(\<forall>d\<in>set (dispatched (final_flush s)).
                     \<exists>result. DeleteObjects client (deleteParams (fBucket fl) d) = Inr result) \<longrightarrow>
                  (\<exists>fin. main maxCap race arrival load fl = Inr fin \<and>
                         concat (dispatched (final_state fin)) =
                           map entry_of (listing_order pages))"
    proof
      assume "\<forall>d\<in>set (dispatched (final_flush s)).
                     \<exists>result. DeleteObjects client (deleteParams (fBucket fl) d) = Inr result"
      then have "aborts ?ws = []" by (intro aborts_none) blast
      then show "\<exists>fin. main maxCap race arrival load fl = Inr fin \<and>
                         concat (dispatched (final_state fin)) =
                           map entry_of (listing_order pages)"
        unfolding main_after_listing[OF lc] by (simp add: cat)
    qed
    have fatal: "\<forall>f. main maxCap race arrival load fl = Inl f \<longrightarrow> (\<exists>err. f = DeleteFailed err)"
    proof (intro allI impI)
      fix f assume m: "main maxCap race arrival load fl = Inl f"
      then obtain g gs where g: "aborts ?ws = g # gs" and f: "f = first_exit race g gs"
        unfolding main_after_listing[OF lc] by (auto split: list.splits)
      have "f \<in> set (aborts ?ws)" unfolding g f by (rule first_exit_mem)
      then show "\<exists>err. f = DeleteFailed err" by (rule aborts_kind)
    qed
    from lc cat completes fatal
    show "(\<exists>s. listing_completes maxCap load fl client s \<and>
                 concat (dispatched (final_flush s)) = map entry_of (listing_order pages) \<and>
                 ((\<forall>d\<in>set (dispatched (final_flush s)).
                     \<exists>result. DeleteObjects client (deleteParams (fBucket fl) d) = Inr result) \<longrightarrow>
                  (\<exists>fin. main maxCap race arrival load fl = Inr fin \<and>
                         concat (dispatched (final_state fin)) =
                           map entry_of (listing_order pages)))) \<and>
            (\<forall>f. main maxCap race arrival load fl = Inl f \<longrightarrow> (\<exists>err. f = DeleteFailed err))"
      by blast
  qed
  from n d r show ?thesis by (intro conjI)
qed

theorem slash_only_prefix_witness:
  "set (fPrefix slash_flags) \<subseteq> {CHR ''/''} \<and>
   normalized_prefix (fPrefix slash_flags) = [] \<and>
   reaches_listing 1000 bucket_load slash_flags bucket_client \<and>
   ListObjectVersionsPaginator bucket_client
     \<lparr>List_Bucket = fBucket slash_flags, List_Prefix = []\<rparr> = map Inr stray_pages \<and>
   (\<exists>fin. main 1000 0 rev bucket_load slash_flags = Inr fin \<and>
      concat (dispatched (final_state fin)) = map entry_of (listing_order stray_pages)) \<and>
   entry_of (''c/d'', ''1'') \<in> set (map entry_of (listing_order stray_pages))"
proof -
  have h: "set (fPrefix slash_flags) \<subseteq> {CHR ''/''}" by (simp add: slash_flags_def)
  note slash = slash_only_prefix[OF h]
  have reach: "reaches_listing 1000 bucket_load slash_flags bucket_client"
    by (simp add: reaches_listing_def slash_flags_def bucket_load_def MaxInt_def
        mask_eq_exp_minus_1)
  have outs: "ListObjectVersionsPaginator bucket_client
     \<lparr>List_Bucket = fBucket slash_flags, List_Prefix = []\<rparr> = map Inr stray_pages"
    by (simp add: bucket_client_def)
  have ok: "\<forall>d. \<exists>result. DeleteObjects bucket_client (deleteParams (fBucket slash_flags) d) =
      Inr result"
    by (simp add: bucket_client_def)
  from slash have n: "normalized_prefix (fPrefix slash_flags) = []" by (elim conjE)
  from slash have "\<forall>maxCap race arrival load client pages.
            reaches_listing maxCap load slash_flags client \<and>
            ListObjectVersionsPaginator client
              \<lparr>List_Bucket = fBucket slash_flags, List_Prefix = []\<rparr> = map Inr pages \<longrightarrow>
            (\<exists>s. listing_completes maxCap load slash_flags client s \<and>
                 concat (dispatched (final_flush s)) = map entry_of (listing_order pages) \<and>
                 ((\<forall>d\<in>set (dispatched (final_flush s)).
                     \<exists>result. DeleteObjects client (deleteParams (fBucket slash_flags) d) =
                        Inr result) \<longrightarrow>
                  (\<exists>fin. main maxCap race arrival load slash_flags = Inr fin \<and>
                         concat (dispatched (final_state fin)) =
                           map entry_of (listing_order pages)))) \<and>
            (\<forall>f. main maxCap race arrival load slash_flags = Inl f \<longrightarrow>
               (\<exists>err. f = DeleteFailed err))"
    by (elim conjE)
  with reach outs ok have run: "\<exists>fin. main 1000 0 rev bucket_load slash_flags = Inr fin \<and>
      concat (dispatched (final_state fin)) = map entry_of (listing_order stray_pages)"
    by blast
  have stray: "entry_of (''c/d'', ''1'') \<in> set (map entry_of (listing_order stray_pages))"
    by (simp add: stray_pages_def listing_order_def)
  from h n reach outs run stray show ?thesis by (intro conjI)
qed

end
